theory Spec2Isabelle
  imports Main "HOL-Library.Word"
begin

unbundle bit_operations_syntax

section \<open>The array hash of \<^verbatim>\<open>src/src/array-hash.h\<close>\<close>

text \<open>
  A shallow embedding of \<^verbatim>\<open>stx::array_hash\<close>. The data layout is the one of the
  common LP64 targets of the code: \<^verbatim>\<open>char\<close> is a signed byte, \<^verbatim>\<open>int16_t\<close> (the
  \<^verbatim>\<open>length_type\<close>) is 16 bits and stored little-endian, \<^verbatim>\<open>int\<close> is 32 bits,
  \<^verbatim>\<open>size_t\<close> is 64 bits; conversions between integer types are modular and \<^verbatim>\<open>>>\<close> on a
  negative \<^verbatim>\<open>int\<close> is the arithmetic shift. Every arithmetic operation below is the
  word operation of that width, so it wraps where the machine wraps.

  Memory is explicit. A slot buffer (\<^verbatim>\<open>char *\<close> made by \<^verbatim>\<open>new char[n]\<close>) is a list of
  cells; a cell is \<open>None\<close> until it is written, and reading such a cell, or any cell
  outside the buffer, is an error value. A \<^verbatim>\<open>const char *\<close> argument is the list of the
  bytes of the caller's array, from the pointer on. A run that does not return is the
  value \<open>None\<close> of the loops that may not terminate.
\<close>

subsection \<open>Bytes, buffers and the C library calls\<close>

type_synonym byte = "8 word"
type_synonym length_type = "16 word"
type_synonym c_int = "32 word"
type_synonym size_t = "64 word"

datatype error = OutOfBounds | Uninitialized | BadAlloc | NullPointer

type_synonym buffer = "byte option list"

definition SLOT_COUNT :: nat where
  "SLOT_COUNT = 2048"

definition read_byte :: "buffer \<Rightarrow> nat \<Rightarrow> error + byte" where
  "read_byte buf i =
     (if i < length buf
      then (case buf ! i of None \<Rightarrow> Inl Uninitialized | Some b \<Rightarrow> Inr b)
      else Inl OutOfBounds)"

text \<open>\<^verbatim>\<open>*((length_type *)p)\<close>: the two bytes at \<open>p\<close>, low byte first.\<close>

definition read_length :: "buffer \<Rightarrow> nat \<Rightarrow> error + length_type" where
  "read_length buf i =
     (case read_byte buf i of
        Inl e \<Rightarrow> Inl e
      | Inr lo \<Rightarrow>
          (case read_byte buf (i + 1) of
             Inl e \<Rightarrow> Inl e
           | Inr hi \<Rightarrow> Inr (word_cat hi lo)))"

text \<open>\<^verbatim>\<open>memcpy(p, &length, sizeof(length_type))\<close>.\<close>

definition write_length :: "buffer \<Rightarrow> nat \<Rightarrow> length_type \<Rightarrow> error + buffer" where
  "write_length buf i w =
     (if i + 2 \<le> length buf
      then Inr (buf[i := Some (ucast w), i + 1 := Some (ucast (drop_bit 8 w))])
      else Inl OutOfBounds)"

text \<open>Pointer arithmetic \<^verbatim>\<open>p + d\<close> inside one buffer; a pointer before the buffer is an error.\<close>

definition ptr_add :: "nat \<Rightarrow> int \<Rightarrow> error + nat" where
  "ptr_add i d = (if 0 \<le> int i + d then Inr (nat (int i + d)) else Inl OutOfBounds)"

text \<open>
  \<^verbatim>\<open>new char[n]\<close> with \<open>n\<close> already converted to \<^verbatim>\<open>size_t\<close>: no object is larger than
  \<^verbatim>\<open>PTRDIFF_MAX\<close>, so a negative \<^verbatim>\<open>int\<close> size (a huge \<^verbatim>\<open>size_t\<close>) throws. Every other
  allocation succeeds (memory is not a bounded resource of the model) and its cells are
  not initialised.
\<close>

definition new_chars :: "size_t \<Rightarrow> error + buffer" where
  "new_chars n = (if n \<le> 0x7FFFFFFFFFFFFFFF then Inr (replicate (unat n) None) else Inl BadAlloc)"

text \<open>\<^verbatim>\<open>memcpy(dst, src, n)\<close> from the start of one buffer to the start of another.\<close>

definition memcpy :: "buffer \<Rightarrow> buffer \<Rightarrow> size_t \<Rightarrow> error + buffer" where
  "memcpy dst src n =
     (if unat n \<le> length dst \<and> unat n \<le> length src
      then Inr (take (unat n) src @ drop (unat n) dst)
      else Inl OutOfBounds)"

text \<open>\<^verbatim>\<open>strlen\<close> on the caller's array: the bytes before the first zero byte.\<close>

fun strlen :: "byte list \<Rightarrow> error + nat" where
  "strlen [] = Inl OutOfBounds"
| "strlen (c # cs) =
     (if c = 0 then Inr 0
      else (case strlen cs of Inl e \<Rightarrow> Inl e | Inr n \<Rightarrow> Inr (Suc n)))"

text \<open>
  \<^verbatim>\<open>strcmp(str, p)\<close> with \<open>p\<close> inside a slot buffer: zero when the two strings agree up to
  and including the terminator, else the sign of the first difference (bytes compared
  as \<^verbatim>\<open>unsigned char\<close>).
\<close>

fun strcmp :: "byte list \<Rightarrow> buffer \<Rightarrow> nat \<Rightarrow> error + int" where
  "strcmp [] buf p = Inl OutOfBounds"
| "strcmp (c # cs) buf p =
     (case read_byte buf p of
        Inl e \<Rightarrow> Inl e
      | Inr d \<Rightarrow>
          if c \<noteq> d then Inr (if c < d then - 1 else 1)
          else if c = 0 then Inr 0
          else strcmp cs buf (p + 1))"

text \<open>\<^verbatim>\<open>strcpy(p, str)\<close>: the bytes of \<open>str\<close> up to and including its terminator.\<close>

fun strcpy :: "buffer \<Rightarrow> nat \<Rightarrow> byte list \<Rightarrow> error + buffer" where
  "strcpy buf p [] = Inl OutOfBounds"
| "strcpy buf p (c # cs) =
     (if p < length buf
      then (if c = 0 then Inr (buf[p := Some c]) else strcpy (buf[p := Some c]) (p + 1) cs)
      else Inl OutOfBounds)"

text \<open>The C string that starts at the head of a run of cells (what a \<^verbatim>\<open>const char *\<close> denotes).\<close>

fun c_string :: "buffer \<Rightarrow> error + byte list" where
  "c_string [] = Inl OutOfBounds"
| "c_string (None # cs) = Inl Uninitialized"
| "c_string (Some c # cs) =
     (if c = 0 then Inr []
      else (case c_string cs of Inl e \<Rightarrow> Inl e | Inr s \<Rightarrow> Inr (c # s)))"

subsection \<open>The table\<close>

text \<open>
  \<^verbatim>\<open>char **data\<close> is the array of \<open>SLOT_COUNT\<close> slot pointers (\<open>None\<close> is \<^verbatim>\<open>NULL\<close>, \<open>Some buf\<close>
  the buffer the pointer owns), \<^verbatim>\<open>size_t _size\<close> the element counter.
\<close>

record array_hash =
  ah_data :: "buffer option list"
  ah_size :: size_t

text \<open>The constructor \<^verbatim>\<open>array_hash::array_hash()\<close>.\<close>

definition array_hash_new :: array_hash where
  "array_hash_new = \<lparr>ah_data = replicate SLOT_COUNT None, ah_size = 0\<rparr>"

text \<open>A read \<^verbatim>\<open>data[i]\<close> of the slot-pointer array.\<close>

definition data_at :: "array_hash \<Rightarrow> nat \<Rightarrow> error + buffer option" where
  "data_at t i =
     (if i < SLOT_COUNT \<and> i < length (ah_data t) then Inr (ah_data t ! i) else Inl OutOfBounds)"

text \<open>
  \<^verbatim>\<open>array_hash::hash\<close>. The loop counter \<open>i\<close> is a \<^verbatim>\<open>length_type\<close> compared as a signed
  number; \<^verbatim>\<open>str[i]\<close> is a signed \<^verbatim>\<open>char\<close> widened to \<^verbatim>\<open>int\<close>.
\<close>

function hash_loop :: "byte list \<Rightarrow> length_type \<Rightarrow> length_type \<Rightarrow> c_int \<Rightarrow> error + c_int" where
  "hash_loop str len i h =
     (if i <s len
      then (if 0 \<le> sint i \<and> nat (sint i) < length str
            then hash_loop str len (i + 1)
                   (h XOR (push_bit 5 h + signed_drop_bit 2 h + scast (str ! nat (sint i))))
            else Inl OutOfBounds)
      else Inr h)"
  by pat_completeness auto
termination
proof (relation "measure (\<lambda>(str, len, i, h). nat (sint len - sint i))")
  show "wf (measure (\<lambda>(str, len, i, h). nat (sint len - sint i)))"
    by simp
next
  fix str :: "byte list" and len i :: length_type and h :: c_int
  assume lt: "i <s len" and "0 \<le> sint i \<and> nat (sint i) < length str"
  have up: "sint len \<le> 32767"
    using sint_lt [of len] by simp
  have lo: "- 32768 \<le> sint i"
    using sint_ge [of i] by simp
  from lt have less: "sint i < sint len"
    by (simp add: word_sless_alt)
  have "sint (i + 1) = sint i + 1"
    using less up lo by (simp add: sint_word_ariths signed_take_bit_int_eq_self)
  with less show "((str, len, i + 1,
       h XOR (push_bit 5 h + signed_drop_bit 2 h + scast (str ! nat (sint i)))), (str, len, i, h))
      \<in> measure (\<lambda>(str, len, i, h). nat (sint len - sint i))"
    by simp
qed

declare hash_loop.simps [simp del]

definition hash :: "byte list \<Rightarrow> length_type \<Rightarrow> c_int \<Rightarrow> error + c_int" where
  "hash str len seed =
     (case hash_loop str len 0 seed of
        Inl e \<Rightarrow> Inl e
      | Inr h \<Rightarrow> Inr (h AND (of_nat SLOT_COUNT - 1)))"

text \<open>
  The \<^verbatim>\<open>while (w != 0)\<close> loop of \<^verbatim>\<open>array_hash::search\<close>, entered with \<open>w\<close> read at \<open>p\<close>.
  \<open>sz\<close> is the \<^verbatim>\<open>int size\<close>; \<^verbatim>\<open>size += w + sizeof(length_type)\<close> is computed in \<^verbatim>\<open>size_t\<close>
  and converted back, which is addition modulo \<open>2 ^ 32\<close>. The comparison result of a
  record of another length is never computed; the model puts the non-zero value 1 there.
\<close>

partial_function (option) search_loop ::
  "byte list \<Rightarrow> length_type \<Rightarrow> buffer \<Rightarrow> nat \<Rightarrow> c_int \<Rightarrow> length_type \<Rightarrow> (error + c_int) option" where
  "search_loop str len buf p sz w =
     (if w = 0 then Some (Inr sz)
      else (case (if w = len then strcmp str buf (p + 2) else Inr 1) of
              Inl e \<Rightarrow> Some (Inl e)
            | Inr c \<Rightarrow>
                if c = 0 then Some (Inr 0)
                else (case ptr_add (p + 2) (sint w) of
                        Inl e \<Rightarrow> Some (Inl e)
                      | Inr p' \<Rightarrow>
                          (case read_length buf p' of
                             Inl e \<Rightarrow> Some (Inl e)
                           | Inr w' \<Rightarrow> search_loop str len buf p' (sz + scast w + 2) w'))))"

declare search_loop.simps [code]

text \<open>The part of \<^verbatim>\<open>search\<close> after the slot pointer is known: lines 114 to 130.\<close>

definition search_slot :: "byte list \<Rightarrow> length_type \<Rightarrow> buffer \<Rightarrow> (error + c_int) option" where
  "search_slot str len buf =
     (case read_length buf 0 of
        Inl e \<Rightarrow> Some (Inl e)
      | Inr w \<Rightarrow> search_loop str len buf 0 0 w)"

text \<open>\<^verbatim>\<open>array_hash::search(str, length, p)\<close>; \<open>p = None\<close> is the default argument \<^verbatim>\<open>NULL\<close>.\<close>

definition search :: "array_hash \<Rightarrow> byte list \<Rightarrow> length_type \<Rightarrow> buffer option \<Rightarrow> (error + c_int) option" where
  "search t str len p =
     (case p of
        Some buf \<Rightarrow> search_slot str len buf
      | None \<Rightarrow>
          (case hash str (len - 1) 23 of
             Inl e \<Rightarrow> Some (Inl e)
           | Inr h \<Rightarrow>
               (case data_at t (unat h) of
                  Inl e \<Rightarrow> Some (Inl e)
                | Inr None \<Rightarrow> Some (Inr (- 1))
                | Inr (Some buf) \<Rightarrow> search_slot str len buf)))"

text \<open>
  The first lines of \<^verbatim>\<open>insert\<close> and of \<^verbatim>\<open>find\<close>:
  \<^verbatim>\<open>if (length == 0) length = strlen(str); ++length;\<close> with the conversion of the
  \<^verbatim>\<open>size_t\<close> result of \<^verbatim>\<open>strlen\<close> to 16 bits.
\<close>

definition length_arg :: "byte list \<Rightarrow> length_type \<Rightarrow> error + length_type" where
  "length_arg str len0 =
     (if len0 = 0
      then (case strlen str of Inl e \<Rightarrow> Inl e | Inr n \<Rightarrow> Inr (of_nat n + 1))
      else Inr (len0 + 1))"

text \<open>
  The last lines of \<^verbatim>\<open>insert\<close> (``Write data for s''): the length prefix at \<open>p\<close>, the
  string after it, the zero sentinel \<open>len\<close> bytes further, and \<^verbatim>\<open>++_size\<close>. \<open>buf\<close> is the
  buffer that \<^verbatim>\<open>data[slot]\<close> already points to.
\<close>

definition write_record ::
  "array_hash \<Rightarrow> nat \<Rightarrow> buffer \<Rightarrow> nat \<Rightarrow> byte list \<Rightarrow> length_type \<Rightarrow> error + array_hash" where
  "write_record t slot buf p str len =
     (case write_length buf p len of
        Inl e \<Rightarrow> Inl e
      | Inr b1 \<Rightarrow>
          (case strcpy b1 (p + 2) str of
             Inl e \<Rightarrow> Inl e
           | Inr b2 \<Rightarrow>
               (case ptr_add (p + 2) (sint len) of
                  Inl e \<Rightarrow> Inl e
                | Inr q \<Rightarrow>
                    (case write_length b2 q 0 of
                       Inl e \<Rightarrow> Inl e
                     | Inr b3 \<Rightarrow>
                         Inr (t\<lparr>ah_data := (ah_data t)[slot := Some b3],
                                ah_size := ah_size t + 1\<rparr>)))))"

text \<open>
  \<^verbatim>\<open>array_hash::insert(str, length)\<close>; \<open>len0 = 0\<close> is the default argument. The size of
  the new buffer of a non-empty slot is computed in \<^verbatim>\<open>size_t\<close>, the one of an empty slot
  is first stored in an \<^verbatim>\<open>int\<close>.
\<close>

definition insert_ah :: "array_hash \<Rightarrow> byte list \<Rightarrow> length_type \<Rightarrow> (error + array_hash) option" where
  "insert_ah t str len0 =
     (case length_arg str len0 of
        Inl e \<Rightarrow> Some (Inl e)
      | Inr len \<Rightarrow>
          (case hash str (len - 1) 23 of
             Inl e \<Rightarrow> Some (Inl e)
           | Inr h \<Rightarrow>
               (case data_at t (unat h) of
                  Inl e \<Rightarrow> Some (Inl e)
                | Inr (Some p) \<Rightarrow>
                    (case search t str len (Some p) of
                       None \<Rightarrow> None
                     | Some (Inl e) \<Rightarrow> Some (Inl e)
                     | Some (Inr sz) \<Rightarrow>
                         if sz = 0 then Some (Inr t)
                         else Some
                           (case new_chars (scast sz + 4 + scast len) of
                              Inl e \<Rightarrow> Inl e
                            | Inr nb \<Rightarrow>
                                (case memcpy nb p (scast sz) of
                                   Inl e \<Rightarrow> Inl e
                                 | Inr nb' \<Rightarrow>
                                     (case ptr_add 0 (sint sz) of
                                        Inl e \<Rightarrow> Inl e
                                      | Inr q \<Rightarrow> write_record t (unat h) nb' q str len))))
                | Inr None \<Rightarrow>
                    Some
                      (case new_chars (scast (scast len + 4 :: c_int)) of
                         Inl e \<Rightarrow> Inl e
                       | Inr nb \<Rightarrow> write_record t (unat h) nb 0 str len))))"

text \<open>\<^verbatim>\<open>array_hash::find(str, length)\<close>.\<close>

definition find_ah :: "array_hash \<Rightarrow> byte list \<Rightarrow> length_type \<Rightarrow> (error + bool) option" where
  "find_ah t str len0 =
     (case length_arg str len0 of
        Inl e \<Rightarrow> Some (Inl e)
      | Inr len \<Rightarrow>
          (case search t str len None of
             None \<Rightarrow> None
           | Some (Inl e) \<Rightarrow> Some (Inl e)
           | Some (Inr r) \<Rightarrow> Some (Inr (r = 0))))"

text \<open>\<^verbatim>\<open>array_hash::size()\<close>.\<close>

definition size_ah :: "array_hash \<Rightarrow> size_t" where
  "size_ah t = ah_size t"

subsection \<open>The cursor\<close>

text \<open>
  An \<^verbatim>\<open>iterator\<close> holds \<^verbatim>\<open>int slot\<close> and \<^verbatim>\<open>char *p\<close>; its third field is the \<^verbatim>\<open>data\<close> pointer of
  the table it came from, which is the table passed to the functions below. A non-null
  \<open>p\<close> is the pair of the slot whose buffer it points into and the offset in that
  buffer. \<open>slot\<close> never leaves \<open>0..SLOT_COUNT\<close> before a run of the model stops, so it is a
  natural number.
\<close>

record iterator =
  it_slot :: nat
  it_p :: "(nat \<times> nat) option"

text \<open>
  \<^verbatim>\<open>array_hash::begin()\<close>: \<^verbatim>\<open>while (result.data[result.slot] == NULL) ++result.slot;\<close>
  There is no bound in the loop: on a table with no buffer at or after \<open>slot\<close> it reads
  \<^verbatim>\<open>data[SLOT_COUNT]\<close>, which is the error of \<open>data_at\<close>.
\<close>

function begin_loop :: "array_hash \<Rightarrow> nat \<Rightarrow> error + nat" where
  "begin_loop t slot =
     (case data_at t slot of
        Inl e \<Rightarrow> Inl e
      | Inr None \<Rightarrow> begin_loop t (slot + 1)
      | Inr (Some buf) \<Rightarrow> Inr slot)"
  by pat_completeness auto
termination
  by (relation "measure (\<lambda>(t, slot). SLOT_COUNT - slot)")
    (auto simp: data_at_def split: if_splits)

declare begin_loop.simps [simp del]

definition begin_ah :: "array_hash \<Rightarrow> error + iterator" where
  "begin_ah t =
     (case begin_loop t 0 of
        Inl e \<Rightarrow> Inl e
      | Inr s \<Rightarrow> Inr \<lparr>it_slot = s, it_p = Some (s, 0)\<rparr>)"

text \<open>\<^verbatim>\<open>array_hash::end()\<close>.\<close>

definition end_ah :: iterator where
  "end_ah = \<lparr>it_slot = SLOT_COUNT, it_p = None\<rparr>"

text \<open>
  The loop of \<^verbatim>\<open>operator++\<close>: \<^verbatim>\<open>while (data[slot] == NULL && slot < SLOT_COUNT) ++slot;\<close>
  The left operand is evaluated first, so every test reads \<^verbatim>\<open>data[slot]\<close>, also when
  \<open>slot = SLOT_COUNT\<close>; there the right operand is false whatever was read, and the loop
  ends. The model returns, with the final \<open>slot\<close>, the indices of \<^verbatim>\<open>data\<close> that were read,
  in order.
\<close>

function incr_loop :: "array_hash \<Rightarrow> nat \<Rightarrow> nat list \<Rightarrow> error + nat \<times> nat list" where
  "incr_loop t slot reads =
     (if slot < SLOT_COUNT
      then (case data_at t slot of
              Inl e \<Rightarrow> Inl e
            | Inr None \<Rightarrow> incr_loop t (slot + 1) (reads @ [slot])
            | Inr (Some buf) \<Rightarrow> Inr (slot, reads @ [slot]))
      else Inr (slot, reads @ [slot]))"
  by pat_completeness auto
termination
  by (relation "measure (\<lambda>(t, slot, reads). SLOT_COUNT - slot)") auto

declare incr_loop.simps [simp del]

text \<open>The buffer a non-null \<open>p\<close> points into.\<close>

definition buffer_of :: "array_hash \<Rightarrow> nat \<Rightarrow> error + buffer" where
  "buffer_of t b =
     (if b < length (ah_data t)
      then (case ah_data t ! b of None \<Rightarrow> Inl NullPointer | Some buf \<Rightarrow> Inr buf)
      else Inl OutOfBounds)"

text \<open>
  \<^verbatim>\<open>iterator::operator++\<close>, returning the new cursor and the indices of \<^verbatim>\<open>data\<close> it read.
\<close>

definition iterator_incr :: "array_hash \<Rightarrow> iterator \<Rightarrow> error + iterator \<times> nat list" where
  "iterator_incr t it =
     (case it_p it of
        None \<Rightarrow> Inl NullPointer
      | Some (b, off) \<Rightarrow>
          (case buffer_of t b of
             Inl e \<Rightarrow> Inl e
           | Inr buf \<Rightarrow>
               (case read_length buf off of
                  Inl e \<Rightarrow> Inl e
                | Inr w \<Rightarrow>
                    (case ptr_add off (sint w + 2) of
                       Inl e \<Rightarrow> Inl e
                     | Inr off' \<Rightarrow>
                         (case read_length buf off' of
                            Inl e \<Rightarrow> Inl e
                          | Inr w' \<Rightarrow>
                              if w' = 0
                              then (case incr_loop t (it_slot it + 1) [] of
                                      Inl e \<Rightarrow> Inl e
                                    | Inr (slot, reads) \<Rightarrow>
                                        if slot = SLOT_COUNT
                                        then Inr (\<lparr>it_slot = slot, it_p = None\<rparr>, reads)
                                        else Inr (\<lparr>it_slot = slot, it_p = Some (slot, 0)\<rparr>,
                                                  reads @ [slot]))
                              else Inr (it\<lparr>it_p := Some (b, off')\<rparr>, []))))))"

text \<open>\<^verbatim>\<open>iterator::operator*\<close>: the pointer past the length prefix, or \<^verbatim>\<open>NULL\<close>.\<close>

definition iterator_deref :: "iterator \<Rightarrow> (nat \<times> nat) option" where
  "iterator_deref it = (case it_p it of None \<Rightarrow> None | Some (b, off) \<Rightarrow> Some (b, off + 2))"

text \<open>The string a \<^verbatim>\<open>const char *\<close> result denotes when it is read (printed, compared).\<close>

definition string_at :: "array_hash \<Rightarrow> (nat \<times> nat) option \<Rightarrow> error + byte list" where
  "string_at t q =
     (case q of
        None \<Rightarrow> Inl NullPointer
      | Some (b, off) \<Rightarrow>
          (case buffer_of t b of Inl e \<Rightarrow> Inl e | Inr buf \<Rightarrow> c_string (drop off buf)))"

text \<open>
  The forward traversal of the drivers (\<^verbatim>\<open>print\<close> in the test program):
  \<^verbatim>\<open>for (it = t.begin(); it != t.end(); ++it) cout << *it << endl;\<close>
  returning the strings in the order they are produced.
\<close>

partial_function (option) traverse_loop ::
  "array_hash \<Rightarrow> iterator \<Rightarrow> byte list list \<Rightarrow> (error + byte list list) option" where
  "traverse_loop t it out =
     (if it = end_ah then Some (Inr out)
      else (case string_at t (iterator_deref it) of
              Inl e \<Rightarrow> Some (Inl e)
            | Inr s \<Rightarrow>
                (case iterator_incr t it of
                   Inl e \<Rightarrow> Some (Inl e)
                 | Inr (it', reads) \<Rightarrow> traverse_loop t it' (out @ [s]))))"

declare traverse_loop.simps [code]

definition traverse :: "array_hash \<Rightarrow> (error + byte list list) option" where
  "traverse t =
     (case begin_ah t of
        Inl e \<Rightarrow> Some (Inl e)
      | Inr it \<Rightarrow> traverse_loop t it [])"

section \<open>Strings, records and the packed layout\<close>

text \<open>
  The vocabulary of the properties. A string is the list of its bytes before the
  terminator; \<open>c_str s\<close> is the array a caller passes for it. A string fits when it has
  no zero byte and its length with the terminator is at most 32767, the largest value of
  the 16-bit signed length field.
\<close>

definition c_str :: "byte list \<Rightarrow> byte list" where
  "c_str s = s @ [0]"

definition valid_str :: "byte list \<Rightarrow> bool" where
  "valid_str s \<longleftrightarrow> 0 \<notin> set s \<and> length s < 32767"

text \<open>
  The bytes of a slot: each record is its length (the string's bytes and the terminator,
  low byte first), the string and the terminator; after the last record comes the zero
  sentinel. A slot without records has no buffer.
\<close>

definition enc_length :: "length_type \<Rightarrow> byte list" where
  "enc_length w = [ucast w, ucast (drop_bit 8 w)]"

definition enc_record :: "byte list \<Rightarrow> byte list" where
  "enc_record s = enc_length (of_nat (length s + 1)) @ s @ [0]"

definition enc_records :: "byte list list \<Rightarrow> byte list" where
  "enc_records rs = concat (map enc_record rs)"

definition slot_image :: "byte list list \<Rightarrow> buffer option" where
  "slot_image rs = (if rs = [] then None else Some (map Some (enc_records rs @ [0, 0])))"

text \<open>
  The hash as the spec words it: from the seed 23, \<open>h XOR ((h << 5) + (h >> 2) + b)\<close> for
  each byte, then \<open>AND (SLOT_COUNT - 1)\<close>. It is compared with \<open>hash\<close> below.
\<close>

definition hash_step :: "c_int \<Rightarrow> byte \<Rightarrow> c_int" where
  "hash_step h b = h XOR (push_bit 5 h + signed_drop_bit 2 h + scast b)"

definition slot_index :: "byte list \<Rightarrow> nat" where
  "slot_index s = unat (foldl hash_step 23 s AND 2047)"

text \<open>
  The invariant of a table built by inserts: slot \<open>i\<close> is the packed image of a list of
  distinct strings that fit and hash to \<open>i\<close>, its records take less than
  \<open>2 ^ 31 + 32770\<close> bytes (an insert into a slot of \<open>2 ^ 31\<close> bytes or more fails in
  \<^verbatim>\<open>new\<close>), and the counter is the number of records.
\<close>

definition slot_ok :: "nat \<Rightarrow> byte list list \<Rightarrow> bool" where
  "slot_ok i rs \<longleftrightarrow>
     (\<forall>s\<in>set rs. valid_str s \<and> slot_index s = i) \<and> distinct rs \<and>
     length (enc_records rs) < 2 ^ 31 + 32770"

definition table_repr :: "array_hash \<Rightarrow> byte list list list \<Rightarrow> bool" where
  "table_repr t rss \<longleftrightarrow>
     length rss = SLOT_COUNT \<and> ah_data t = map slot_image rss \<and>
     (\<forall>i<SLOT_COUNT. slot_ok i (rss ! i)) \<and> unat (ah_size t) = length (concat rss)"

text \<open>A sequence of \<^verbatim>\<open>insert(s)\<close> calls; it stops at the first call that does not return.\<close>

fun inserts :: "array_hash \<Rightarrow> byte list list \<Rightarrow> (error + array_hash) option" where
  "inserts t [] = Some (Inr t)"
| "inserts t (s # ss) =
     (case insert_ah t (c_str s) 0 of
        None \<Rightarrow> None
      | Some (Inl e) \<Rightarrow> Some (Inl e)
      | Some (Inr t') \<Rightarrow> inserts t' ss)"

text \<open>The walk of \<open>search\<close> entered at any record boundary \<open>p\<close> with the size \<open>sz\<close> so far.\<close>

definition search_from :: "byte list \<Rightarrow> length_type \<Rightarrow> buffer \<Rightarrow> nat \<Rightarrow> c_int \<Rightarrow> (error + c_int) option" where
  "search_from str len buf p sz =
     (case read_length buf p of Inl e \<Rightarrow> Some (Inl e) | Inr w \<Rightarrow> search_loop str len buf p sz w)"

text \<open>The bytes the records of a list of strings take: prefix, string and terminator each.\<close>

definition str_bytes :: "byte list list \<Rightarrow> nat" where
  "str_bytes ss = sum_list (map (\<lambda>s. length s + 3) ss)"

text \<open>A table that holds exactly the strings of \<open>S\<close>, each once.\<close>

definition packed :: "array_hash \<Rightarrow> byte list list list \<Rightarrow> byte list set \<Rightarrow> bool" where
  "packed t rss S \<longleftrightarrow>
     table_repr t rss \<and> set (concat rss) = S \<and> length (concat rss) = card S"

text \<open>
  The number of records in a slot buffer, counted the way the walks of the code step
  through it: a record starts with a positive length \<open>w\<close> and the next one starts
  \<open>w + 2\<close> bytes further; the walk ends at the first length that is not positive.
\<close>

function record_count :: "buffer \<Rightarrow> nat \<Rightarrow> nat" where
  "record_count buf p =
     (case read_length buf p of
        Inl e \<Rightarrow> 0
      | Inr w \<Rightarrow> if 0 < sint w then 1 + record_count buf (p + 2 + nat (sint w)) else 0)"
  by pat_completeness auto
termination
  by (relation "measure (\<lambda>(buf, p). length buf - p)")
    (auto simp: read_length_def read_byte_def split: if_splits sum.splits option.splits)

declare record_count.simps [simp del]

definition total_records :: "array_hash \<Rightarrow> nat" where
  "total_records t =
     sum_list (map (\<lambda>slot. case slot of None \<Rightarrow> 0 | Some buf \<Rightarrow> record_count buf 0) (ah_data t))"

text \<open>
  An example: the table after \<^verbatim>\<open>insert("ba"); insert("sw"); insert("ba");\<close>. The two
  strings share slot 101.
\<close>

definition example_strings :: "byte list list" where
  "example_strings = [[0x62, 0x61], [0x73, 0x77], [0x62, 0x61]]"

definition example_table :: array_hash where
  "example_table =
     \<lparr>ah_data = (replicate SLOT_COUNT None)
        [101 := Some (map Some [3, 0, 0x62, 0x61, 0, 3, 0, 0x73, 0x77, 0, 0, 0])],
      ah_size = 2\<rparr>"

text \<open>The same table after \<^verbatim>\<open>insert("duc", 3)\<close>, a third string of slot 101.\<close>

definition example_table_duc :: array_hash where
  "example_table_duc =
     \<lparr>ah_data = (replicate SLOT_COUNT None)
        [101 := Some (map Some [3, 0, 0x62, 0x61, 0, 3, 0, 0x73, 0x77, 0,
                                4, 0, 0x64, 0x75, 0x63, 0, 0, 0])],
      ah_size = 3\<rparr>"

text \<open>The table after \<^verbatim>\<open>insert("a")\<close> alone.\<close>

definition example_table_a :: array_hash where
  "example_table_a =
     \<lparr>ah_data = (replicate SLOT_COUNT None)[849 := Some (map Some [2, 0, 0x61, 0, 0, 0])],
      ah_size = 1\<rparr>"

section \<open>The packed layout is what the code reads and writes\<close>

subsection \<open>Words\<close>

lemma sint_of_nat16: "n < 32768 \<Longrightarrow> sint (of_nat n :: 16 word) = int n"
  by (simp add: signed_of_nat signed_take_bit_int_eq_self)

lemma scast_of_nat16_32: "n < 32768 \<Longrightarrow> (scast (of_nat n :: 16 word) :: 32 word) = of_nat n"
  by (simp add: signed_of_nat signed_take_bit_int_eq_self)

lemma scast_of_nat16_64: "n < 32768 \<Longrightarrow> (scast (of_nat n :: 16 word) :: 64 word) = of_nat n"
  by (simp add: signed_of_nat signed_take_bit_int_eq_self)

lemma of_nat16_eq_iff: "m < 65536 \<Longrightarrow> n < 65536 \<Longrightarrow> (of_nat m :: 16 word) = of_nat n \<longleftrightarrow> m = n"
  by (simp add: word_of_nat_eq_iff take_bit_nat_eq_self)

lemma of_nat16_nz: "n < 65535 \<Longrightarrow> (of_nat (Suc n) :: 16 word) \<noteq> 0"
  using of_nat16_eq_iff [of "Suc n" 0] by simp

lemma length_roundtrip: "word_cat (ucast (drop_bit 8 w) :: byte) (ucast w :: byte) = (w :: length_type)"
  by (rule bit_word_eqI) (auto simp: bit_simps)

subsection \<open>Cells\<close>

lemma read_byte_Some:
  "read_byte (map Some xs) i = (if i < length xs then Inr (xs ! i) else Inl OutOfBounds)"
  by (simp add: read_byte_def)

lemma read_length_at:
  "read_length (xs @ Some a # Some b # ys) (length xs) = Inr (word_cat b a)"
  by (simp add: read_length_def read_byte_def nth_append)

lemma read_length_enc:
  "read_length (map Some (pre @ enc_length w @ post)) (length pre) = Inr w"
  using read_length_at [of "map Some pre" "ucast w" "ucast (drop_bit 8 w)" "map Some post"]
  by (simp add: enc_length_def length_roundtrip)

lemma write_length_enc:
  "p + 2 \<le> length buf \<Longrightarrow>
   write_length buf p w = Inr (take p buf @ map Some (enc_length w) @ drop (p + 2) buf)"
  by (simp add: write_length_def enc_length_def upd_conv_take_nth_drop take_Suc_conv_app_nth
      drop_Suc list_update_append nth_append min_def)

lemma strlen_c: "0 \<notin> set s \<Longrightarrow> strlen (s @ 0 # rest) = Inr (length s)"
  by (induction s) auto

lemma strcpy_c:
  "0 \<notin> set s \<Longrightarrow> p + length s + 1 \<le> length buf \<Longrightarrow>
   strcpy buf p (s @ 0 # rest) =
     Inr (take p buf @ map Some (s @ [0]) @ drop (p + length s + 1) buf)"
proof (induction s arbitrary: buf p)
  case Nil
  then show ?case by (simp add: upd_conv_take_nth_drop)
next
  case (Cons c cs)
  then show ?case
    by (simp add: take_Suc_conv_app_nth)
qed


lemma read_byte_at: "read_byte (xs @ Some b # ys) (length xs) = Inr b"
  by (simp add: read_byte_def)

lemma strlen_Inr_cases:
  "strlen str = Inr n \<Longrightarrow>
   \<exists>c cs. str = c # cs \<and> (if c = 0 then n = 0 else \<exists>m. n = Suc m \<and> strlen cs = Inr m)"
  by (cases str) (auto split: if_splits sum.splits)

lemma strcmp_record:
  "0 \<notin> set r \<Longrightarrow> strlen str = Inr n \<Longrightarrow>
   \<exists>c. strcmp str (map Some (pre @ r @ 0 # post)) (length pre) = Inr c \<and>
        (c = 0 \<longleftrightarrow> take n str = r)"
proof (induction r arbitrary: str n pre)
  case Nil
  from strlen_Inr_cases [OF Nil(2)] obtain c cs where
    str: "str = c # cs" and n: "if c = 0 then n = 0 else \<exists>m. n = Suc m \<and> strlen cs = Inr m"
    by blast
  have rd: "read_byte (map Some (pre @ [] @ 0 # post)) (length pre) = Inr 0"
    using read_byte_at [of "map Some pre" 0 "map Some post"] by simp
  show ?case
    using n unfolding str strcmp.simps rd by (auto split: if_splits)
next
  case (Cons x xs)
  from strlen_Inr_cases [OF Cons.prems(2)] obtain c cs where
    str: "str = c # cs" and n: "if c = 0 then n = 0 else \<exists>m. n = Suc m \<and> strlen cs = Inr m"
    by blast
  from Cons.prems(1) have x: "x \<noteq> 0" and xs: "0 \<notin> set xs"
    by auto
  have rd: "read_byte (map Some (pre @ (x # xs) @ 0 # post)) (length pre) = Inr x"
    using read_byte_at [of "map Some pre" x "map Some (xs @ 0 # post)"] by simp
  show ?case
  proof (cases "c = x")
    case False
    then show ?thesis
      using n x unfolding str strcmp.simps rd by (auto split: if_splits)
  next
    case True
    with x n obtain m where m: "n = Suc m" "strlen cs = Inr m"
      by auto
    from Cons.IH [OF xs m(2), of "pre @ [x]"]
    show ?thesis
      using True x unfolding str strcmp.simps rd by (simp add: m)
  qed
qed

lemma hash_loop_no_error:
  "0 \<le> sint i \<Longrightarrow> sint len \<le> int (length str) \<Longrightarrow> \<exists>h'. hash_loop str len i h = Inr h'"
proof (induction str len i h rule: hash_loop.induct)
  case (1 str len i h)
  show ?case
  proof (cases "i <s len")
    case False
    then show ?thesis by (subst hash_loop.simps) simp
  next
    case True
    then have less: "sint i < sint len"
      by (simp add: word_sless_alt)
    have up: "sint len \<le> 32767"
      using sint_lt [of len] by simp
    have suc: "sint (i + 1) = sint i + 1"
      using less up "1.prems"(1) by (simp add: sint_word_ariths signed_take_bit_int_eq_self)
    have inb: "0 \<le> sint i \<and> nat (sint i) < length str"
      using less "1.prems" by auto
    have nonneg: "0 \<le> sint (i + 1)"
      using suc "1.prems"(1) by simp
    from "1.IH" [OF True inb nonneg "1.prems"(2)] obtain h' where
      "hash_loop str len (i + 1)
         (h XOR (push_bit 5 h + signed_drop_bit 2 h + scast (str ! nat (sint i)))) = Inr h'"
      by blast
    then show ?thesis
      using True inb by (subst hash_loop.simps) simp
  qed
qed

lemma hash_loop_fold:
  "k \<le> length s \<Longrightarrow> length s < 32768 \<Longrightarrow>
   hash_loop (s @ rest) (of_nat (length s)) (of_nat k) h = Inr (foldl hash_step h (drop k s))"
proof (induction "length s - k" arbitrary: k h)
  case 0
  then have k: "k = length s" by simp
  show ?case
    by (subst hash_loop.simps) (simp add: k word_sless_alt)
next
  case (Suc d)
  then have lt: "k < length s" by simp
  have ik: "sint (of_nat k :: 16 word) = int k" and il: "sint (of_nat (length s) :: 16 word) = int (length s)"
    using lt Suc.prems by (simp_all add: sint_of_nat16)
  have step: "hash_loop (s @ rest) (of_nat (length s)) (of_nat (Suc k)) (hash_step h (s ! k)) =
      Inr (foldl hash_step (hash_step h (s ! k)) (drop (Suc k) s))"
    using Suc.hyps(2) lt Suc.prems by (intro Suc.hyps(1)) simp_all
  have dr: "drop k s = s ! k # drop (Suc k) s"
    using lt by (simp add: Cons_nth_drop_Suc)
  show ?case
    using lt step
    by (subst hash_loop.simps) (simp add: word_sless_alt ik il nth_append dr hash_step_def add.commute)
qed

lemma slot_index_less: "slot_index s < SLOT_COUNT"
proof -
  have "unat (foldl hash_step 23 s AND 2047) \<le> unat (2047 :: c_int)"
    by (rule word_and_le1 [THEN word_le_nat_alt [THEN iffD1]])
  then show ?thesis
    by (simp add: slot_index_def SLOT_COUNT_def)
qed

lemma hash_c_str:
  "length s < 32768 \<Longrightarrow>
   hash (s @ rest) (of_nat (length s)) 23 = Inr (foldl hash_step 23 s AND 2047)"
  using hash_loop_fold [of 0 s rest 23] by (simp add: hash_def SLOT_COUNT_def)

subsection \<open>Searching a slot\<close>

lemma length_enc_record: "length (enc_record r) = length r + 3"
  by (simp add: enc_record_def enc_length_def)

lemma enc_records_Cons: "enc_records (r # rs) = enc_record r @ enc_records rs"
  by (simp add: enc_records_def)

lemma enc_records_Nil: "enc_records [] = []"
  by (simp add: enc_records_def)

lemma enc_records_append: "enc_records (rs @ rs') = enc_records rs @ enc_records rs'"
  by (simp add: enc_records_def)

lemma search_from_records:
  assumes str: "strlen str = Inr n"
  shows "\<forall>r\<in>set rs. valid_str r \<Longrightarrow>
    search_from str len (map Some (pre @ enc_records rs @ [0, 0])) (length pre) sz =
      Some (Inr (if \<exists>r\<in>set rs. of_nat (length r + 1) = len \<and> r = take n str then 0
                 else sz + of_nat (length (enc_records rs))))"
proof (induction rs arbitrary: pre sz)
  case Nil
  have "read_length (map Some (pre @ enc_length 0 @ [])) (length pre) = Inr 0"
    by (rule read_length_enc)
  then have "read_length (map Some (pre @ [0, 0])) (length pre) = Inr 0"
    by (simp add: enc_length_def)
  then show ?case
    by (simp add: search_from_def enc_records_Nil search_loop.simps)
next
  case (Cons r rs)
  define w :: length_type where "w = of_nat (length r + 1)"
  define buf where "buf = map Some (pre @ enc_records (r # rs) @ [0, 0])"
  define p' where "p' = length (pre @ enc_record r)"
  define sz' where "sz' = sz + of_nat (length (enc_record r))"
  from Cons.prems have r: "0 \<notin> set r" "length r < 32767" and rs: "\<forall>r\<in>set rs. valid_str r"
    by (simp_all add: valid_str_def)
  have buf1: "buf = map Some (pre @ enc_length w @ (r @ 0 # enc_records rs @ [0, 0]))"
    by (simp add: buf_def w_def enc_records_Cons enc_record_def)
  have buf2: "buf = map Some ((pre @ enc_length w) @ r @ 0 # (enc_records rs @ [0, 0]))"
    by (simp add: buf_def w_def enc_records_Cons enc_record_def)
  have buf3: "buf = map Some ((pre @ enc_record r) @ enc_records rs @ [0, 0])"
    by (simp add: buf_def enc_records_Cons)
  have rd: "read_length buf (length pre) = Inr w"
    unfolding buf1 by (rule read_length_enc)
  have wnz: "w \<noteq> 0"
    unfolding w_def using r(2) of_nat16_nz [of "length r"] by simp
  have sw: "sint w = int (length r + 1)"
    unfolding w_def using r(2) by (intro sint_of_nat16) simp
  have cw: "(scast w :: c_int) = of_nat (length r + 1)"
    unfolding w_def using r(2) by (intro scast_of_nat16_32) simp
  have adv: "ptr_add (length pre + 2) (sint w) = Inr p'"
    by (simp add: ptr_add_def sw p'_def length_enc_record)
  have szs: "sz + scast w + 2 = sz'"
    by (simp add: cw sz'_def length_enc_record)
  have "\<exists>c. strcmp str buf (length (pre @ enc_length w)) = Inr c \<and> (c = 0 \<longleftrightarrow> take n str = r)"
    unfolding buf2 by (rule strcmp_record [OF r(1) str])
  then obtain c where c: "strcmp str buf (length pre + 2) = Inr c" "c = 0 \<longleftrightarrow> take n str = r"
    by (auto simp: enc_length_def)
  have IH: "search_from str len buf p' sz' =
      Some (Inr (if \<exists>r\<in>set rs. of_nat (length r + 1) = len \<and> r = take n str then 0
                 else sz' + of_nat (length (enc_records rs))))"
    unfolding buf3 p'_def by (rule Cons.IH [OF rs])
  have unfold: "search_from str len buf (length pre) sz =
      (if w = len \<and> c = 0 then Some (Inr 0) else search_from str len buf p' sz')"
  proof (cases "w = len")
    case True
    show ?thesis
      unfolding search_from_def rd sum.case
      by (subst search_loop.simps)
        (simp only: True [symmetric] wnz if_False if_True simp_thms c(1) sum.case adv szs)
  next
    case False
    show ?thesis
      unfolding search_from_def rd sum.case
      by (subst search_loop.simps)
        (simp only: False wnz if_False simp_thms sum.case adv szs one_neq_zero)
  qed
  have total: "sz' + of_nat (length (enc_records rs)) = sz + of_nat (length (enc_records (r # rs)))"
    by (simp add: sz'_def enc_records_Cons)
  show ?case
    unfolding buf_def [symmetric] unfold IH total
    using c(2) by (auto simp: w_def)
qed

lemma drop_app_len: "length xs = n \<Longrightarrow> drop (n + k) (xs @ ys) = drop k ys"
  by simp

lemma take_app_len: "length xs = n \<Longrightarrow> take (n + k) (xs @ ys) = xs @ take k ys"
  by simp

lemma write_record_c:
  assumes s: "0 \<notin> set s" "length s < 32767" and room: "p + length s + 5 \<le> length buf"
  shows "write_record t i buf p (s @ 0 # rest) (of_nat (length s + 1)) =
     Inr (t\<lparr>ah_data := (ah_data t)[i := Some (take p buf @ map Some (enc_record s @ [0, 0]) @
                                               drop (p + length s + 5) buf)],
            ah_size := ah_size t + 1\<rparr>)"
proof -
  define w :: length_type where "w = of_nat (length s + 1)"
  define b1 where "b1 = take p buf @ map Some (enc_length w) @ drop (p + 2) buf"
  define b2 where "b2 = take (p + 2) b1 @ map Some (s @ [0]) @ drop (p + 2 + length s + 1) b1"
  define q where "q = p + 2 + length s + 1"
  define b3 where "b3 = take q b2 @ map Some (enc_length 0) @ drop (q + 2) b2"
  have l1: "length b1 = length buf"
    using room by (simp add: b1_def enc_length_def)
  have l2: "length b2 = length buf"
    using room l1 by (simp add: b2_def)
  have w1: "write_length buf p w = Inr b1"
    unfolding b1_def using room by (intro write_length_enc) simp
  have w2: "strcpy b1 (p + 2) (s @ 0 # rest) = Inr b2"
    unfolding b2_def using room s(1) l1 by (intro strcpy_c) simp_all
  have sw: "sint w = int (length s + 1)"
    unfolding w_def using s(2) by (intro sint_of_nat16) simp
  have w3: "ptr_add (p + 2) (sint w) = Inr q"
    by (simp add: ptr_add_def sw q_def)
  have w4: "write_length b2 q 0 = Inr b3"
    unfolding b3_def using room l2 by (intro write_length_enc) (simp add: q_def)
  have s1: "b1 = (take p buf @ map Some (enc_length w)) @ drop (p + 2) buf"
    by (simp add: b1_def)
  have ls1: "length (take p buf @ map Some (enc_length w)) = p + 2"
    using room by (simp add: enc_length_def)
  have t1: "take (p + 2) b1 = take p buf @ map Some (enc_length w)"
    unfolding s1 using take_app_len [OF ls1, of 0] by simp
  have "drop (p + 2 + (length s + 1)) b1 = drop (length s + 1) (drop (p + 2) buf)"
    unfolding s1 by (rule drop_app_len [OF ls1])
  then have d1: "drop (p + 2 + length s + 1) b1 = drop (p + 2 + length s + 1) buf"
    by (simp add: add.assoc add.commute)
  have s2: "b2 = (take p buf @ map Some (enc_length w) @ map Some (s @ [0])) @
      drop (p + 2 + length s + 1) buf"
    unfolding b2_def t1 d1 by simp
  have ls2: "length (take p buf @ map Some (enc_length w) @ map Some (s @ [0])) = q"
    using room by (simp add: enc_length_def q_def)
  have t2: "take q b2 = take p buf @ map Some (enc_length w) @ map Some (s @ [0])"
    unfolding s2 using take_app_len [OF ls2, of 0] by simp
  have "drop (q + 2) b2 = drop 2 (drop (p + 2 + length s + 1) buf)"
    unfolding s2 by (rule drop_app_len [OF ls2])
  also have "\<dots> = drop (p + length s + 5) buf"
    unfolding drop_drop by (rule arg_cong [where f = "\<lambda>n. drop n buf"]) simp
  finally have d2: "drop (q + 2) b2 = drop (p + length s + 5) buf" .
  have b3: "b3 = take p buf @ map Some (enc_record s @ [0, 0]) @ drop (p + length s + 5) buf"
    unfolding b3_def t2 d2 by (simp add: enc_record_def w_def enc_length_def)
  show ?thesis
    unfolding w_def [symmetric] write_record_def w1 w2 w3 w4 sum.case b3 ..
qed

lemma of_nat32_nz: "0 < n \<Longrightarrow> n < 2 ^ 32 \<Longrightarrow> (of_nat n :: c_int) \<noteq> 0"
proof
  assume a: "0 < n" "n < 2 ^ 32" "(of_nat n :: c_int) = 0"
  have "unat (of_nat n :: c_int) = n"
    using a(2) by (simp add: unat_of_nat)
  with a(3) have "n = 0" by simp
  with a(1) show False by simp
qed

lemma sint_of_nat32_neg:
  assumes "2 ^ 31 \<le> n" "n < 2 ^ 32"
  shows "sint (of_nat n :: c_int) = int n - 2 ^ 32"
proof -
  have d: "int n div 2 ^ 31 = 1"
    using assms by (intro int_div_pos_eq [where r = "int n - 2 ^ 31"]) auto
  have b: "bit (int n) 31"
    using d by (simp add: bit_iff_odd)
  have t: "take_bit 32 (int n) = int n"
    using assms by (simp add: take_bit_int_eq_self)
  show ?thesis
    using t b by (simp add: signed_of_nat signed_take_bit_eq_take_bit_minus)
qed

lemma sint_of_nat32: "n < 2 ^ 31 \<Longrightarrow> sint (of_nat n :: c_int) = int n"
  by (simp add: signed_of_nat signed_take_bit_int_eq_self)

lemma scast_of_nat32_64: "n < 2 ^ 31 \<Longrightarrow> (scast (of_nat n :: c_int) :: size_t) = of_nat n"
  by (simp add: signed_of_nat signed_take_bit_int_eq_self)

lemma unat_of_nat64: "n < 2 ^ 64 \<Longrightarrow> unat (of_nat n :: size_t) = n"
  by (simp add: unat_of_nat)

lemma new_chars_of_nat:
  "n < 2 ^ 63 \<Longrightarrow> new_chars (of_nat n) = Inr (replicate n None)"
  by (simp add: new_chars_def word_le_nat_alt unat_of_nat)

lemma new_chars_negative:
  assumes "2 ^ 31 \<le> n" "n < 2 ^ 31 + 32770" "m < 32768"
  shows "new_chars (scast (of_nat n :: c_int) + 4 + scast (of_nat m :: length_type)) = Inl BadAlloc"
proof -
  have n32: "n < 2 ^ 32" using assms by simp
  define k :: int where "k = int n - 2 ^ 32 + 4 + int m"
  have s1: "(scast (of_nat n :: c_int) :: size_t) = of_int (int n - 2 ^ 32)"
    using sint_of_nat32_neg [OF assms(1) n32] by (simp add: scast_eq)
  have s2: "(scast (of_nat m :: length_type) :: size_t) = of_int (int m)"
    using scast_of_nat16_64 [OF assms(3)] by simp
  have sum: "scast (of_nat n :: c_int) + 4 + scast (of_nat m :: length_type) = (of_int k :: size_t)"
    unfolding s1 s2 k_def by simp
  have k: "- (2 ^ 31) \<le> k" "k < 0"
    using assms by (simp_all add: k_def)
  have "k mod 2 ^ 64 = (k + 2 ^ 64) mod 2 ^ 64"
    by simp
  also have "\<dots> = k + 2 ^ 64"
    using k by (intro mod_pos_pos_trivial) simp_all
  finally have "uint (of_int k :: size_t) = k + 2 ^ 64"
    by (simp add: uint_word_of_int take_bit_eq_mod)
  then have "\<not> (of_int k :: size_t) \<le> 0x7FFFFFFFFFFFFFFF"
    using k by (simp add: word_le_def)
  then show ?thesis
    unfolding sum by (simp add: new_chars_def)
qed

subsection \<open>The slot of a string\<close>

lemma length_arg_c: "0 \<notin> set s \<Longrightarrow> length_arg (c_str s) 0 = Inr (of_nat (length s + 1))"
  using strlen_c [of s "[]"] by (simp add: length_arg_def c_str_def)

lemma hash_valid:
  "length s < 32768 \<Longrightarrow>
   \<exists>h. hash (c_str s) (of_nat (length s + 1) - 1) 23 = Inr h \<and> unat h = slot_index s"
  using hash_c_str [of s "[0]"] by (simp add: c_str_def slot_index_def)

lemma hash_in_range: "hash str len seed = Inr h \<Longrightarrow> unat h < SLOT_COUNT"
proof -
  assume "hash str len seed = Inr h"
  then obtain h' where h: "h = h' AND 2047"
    by (auto simp: hash_def SLOT_COUNT_def split: sum.splits)
  have "unat (h' AND 2047) \<le> unat (2047 :: c_int)"
    by (rule word_and_le1 [THEN word_le_nat_alt [THEN iffD1]])
  then show ?thesis
    by (simp add: h SLOT_COUNT_def)
qed

lemma sint16_le: "sint (w :: length_type) \<le> 32767"
  using sint_lt [of w] by simp

lemma hash_any:
  "\<exists>h. hash (c_str s) (of_nat (length s + 1) - 1) 23 = Inr h \<and> unat h < SLOT_COUNT \<and>
       (length s < 32768 \<longrightarrow> unat h = slot_index s)"
proof (cases "length s < 32768")
  case True
  from hash_valid [OF True] obtain h where
    h: "hash (c_str s) (of_nat (length s + 1) - 1) 23 = Inr h" "unat h = slot_index s"
    by blast
  with hash_in_range [OF h(1)] show ?thesis by simp
next
  case False
  define w :: length_type where "w = of_nat (length s + 1) - 1"
  have "sint w \<le> 32767"
    by (rule sint16_le)
  with False have le: "sint w \<le> int (length (c_str s))"
    by (simp add: c_str_def)
  have z: "0 \<le> sint (0 :: length_type)"
    by simp
  from hash_loop_no_error [OF z le, of 23] obtain h' where
    "hash_loop (c_str s) w 0 23 = Inr h'"
    by blast
  then have h: "hash (c_str s) w 23 = Inr (h' AND 2047)"
    by (simp add: hash_def SLOT_COUNT_def)
  from hash_in_range [OF h] h False show ?thesis
    unfolding w_def by blast
qed

subsection \<open>Representation\<close>

lemma table_repr_data_at:
  "table_repr t rss \<Longrightarrow> i < SLOT_COUNT \<Longrightarrow> data_at t i = Inr (slot_image (rss ! i))"
  by (simp add: table_repr_def data_at_def)

lemma length_le_enc_records: "length rs \<le> length (enc_records rs)"
  by (induction rs) (simp_all add: enc_records_Nil enc_records_Cons length_enc_record)

lemma enc_records_pos: "rs \<noteq> [] \<Longrightarrow> 0 < length (enc_records rs)"
  using length_le_enc_records [of rs] by (cases rs) auto

lemma search_slot_image:
  assumes "\<forall>r\<in>set rs. valid_str r" "0 \<notin> set s"
  shows "search_slot (c_str s) len (map Some (enc_records rs @ [0, 0])) =
     Some (Inr (if s \<in> set rs \<and> of_nat (length s + 1) = len then 0
                else of_nat (length (enc_records rs))))"
proof -
  have n: "strlen (c_str s) = Inr (length s)"
    using strlen_c [OF assms(2), of "[]"] by (simp add: c_str_def)
  have "search_from (c_str s) len (map Some ([] @ enc_records rs @ [0, 0])) (length ([] :: byte list)) 0 =
      Some (Inr (if \<exists>r\<in>set rs. of_nat (length r + 1) = len \<and> r = take (length s) (c_str s) then 0
                 else 0 + of_nat (length (enc_records rs))))"
    by (rule search_from_records [OF n assms(1)])
  moreover have "(\<exists>r\<in>set rs. of_nat (length r + 1) = len \<and> r = take (length s) (c_str s)) \<longleftrightarrow>
      s \<in> set rs \<and> of_nat (length s + 1) = len"
    by (auto simp: c_str_def)
  ultimately show ?thesis
    by (simp add: search_slot_def search_from_def)
qed

lemma concat_length_bound:
  assumes "\<forall>rs\<in>set rss. length rs \<le> c"
  shows "length (concat rss) \<le> length rss * c"
  using assms by (induction rss) auto

lemma length_concat_update:
  "i < length rss \<Longrightarrow> length (concat (rss[i := rss ! i @ [s]])) = Suc (length (concat rss))"
proof (induction rss arbitrary: i)
  case Nil
  then show ?case by simp
next
  case (Cons rs rss)
  then show ?case by (cases i) auto
qed

lemma set_concat_update:
  "i < length rss \<Longrightarrow> set (concat (rss[i := rss ! i @ [s]])) = insert s (set (concat rss))"
proof (induction rss arbitrary: i)
  case Nil
  then show ?case by simp
next
  case (Cons rs rss)
  then show ?case by (cases i) auto
qed

lemma table_repr_count_bound:
  assumes "table_repr t rss"
  shows "length (concat rss) \<le> 2048 * 2 ^ 32"
proof -
  have "\<forall>rs\<in>set rss. length rs \<le> 2 ^ 32"
  proof
    fix rs assume "rs \<in> set rss"
    then obtain i where i: "i < length rss" "rs = rss ! i"
      by (auto simp: in_set_conv_nth)
    with assms have "slot_ok i rs"
      by (simp add: table_repr_def)
    then have "length (enc_records rs) < 2 ^ 31 + 32770"
      by (simp add: slot_ok_def)
    with length_le_enc_records [of rs] show "length rs \<le> 2 ^ 32"
      by simp
  qed
  from concat_length_bound [OF this] assms show ?thesis
    by (simp add: table_repr_def SLOT_COUNT_def)
qed

lemma table_repr_update:
  assumes T: "table_repr t rss" and i: "i < SLOT_COUNT"
    and s: "valid_str s" "slot_index s = i" "s \<notin> set (rss ! i)"
    and room: "length (enc_records (rss ! i)) < 2 ^ 31"
  shows "table_repr (t\<lparr>ah_data := (ah_data t)[i := slot_image (rss ! i @ [s])],
                        ah_size := ah_size t + 1\<rparr>) (rss[i := rss ! i @ [s]])"
proof -
  from T have len: "length rss = SLOT_COUNT" and dat: "ah_data t = map slot_image rss"
    and ok: "\<forall>j<SLOT_COUNT. slot_ok j (rss ! j)" and cnt: "unat (ah_size t) = length (concat rss)"
    by (simp_all add: table_repr_def)
  have d: "(ah_data t)[i := slot_image (rss ! i @ [s])] = map slot_image (rss[i := rss ! i @ [s]])"
    by (simp add: dat map_update)
  have oki: "slot_ok i (rss ! i @ [s])"
    using ok i s room
    by (auto simp: slot_ok_def enc_records_append enc_records_Cons enc_records_Nil
        length_enc_record valid_str_def)
  have ok': "\<forall>j<SLOT_COUNT. slot_ok j (rss[i := rss ! i @ [s]] ! j)"
    using ok oki len i by (auto simp: nth_list_update)
  have "unat (ah_size t) + unat (1 :: size_t) < 2 ^ LENGTH(64)"
    using table_repr_count_bound [OF T] cnt by simp
  then have "unat (ah_size t + 1) = unat (ah_size t) + unat (1 :: size_t)"
    by (simp only: unat_add_lem)
  then have cnt': "unat (ah_size t + 1) = length (concat (rss[i := rss ! i @ [s]]))"
    using length_concat_update [of i rss s] i len cnt by simp
  show ?thesis
    unfolding table_repr_def using len d ok' cnt' by simp
qed

lemma slot_image_Nil: "slot_image [] = None"
  by (simp add: slot_image_def)

lemma slot_image_Some: "rs \<noteq> [] \<Longrightarrow> slot_image rs = Some (map Some (enc_records rs @ [0, 0]))"
  by (simp add: slot_image_def)

lemma insert_unfold:
  assumes T: "table_repr t rss" and s: "valid_str s"
  shows "insert_ah t (c_str s) 0 =
    (case slot_image (rss ! slot_index s) of
       Some p \<Rightarrow>
         (case search_slot (c_str s) (of_nat (length s + 1)) p of
            None \<Rightarrow> None
          | Some (Inl e) \<Rightarrow> Some (Inl e)
          | Some (Inr sz) \<Rightarrow>
              if sz = 0 then Some (Inr t)
              else Some
                (case new_chars (scast sz + 4 + scast (of_nat (length s + 1) :: length_type)) of
                   Inl e \<Rightarrow> Inl e
                 | Inr nb \<Rightarrow>
                     (case memcpy nb p (scast sz) of
                        Inl e \<Rightarrow> Inl e
                      | Inr nb' \<Rightarrow>
                          (case ptr_add 0 (sint sz) of
                             Inl e \<Rightarrow> Inl e
                           | Inr q \<Rightarrow>
                               write_record t (slot_index s) nb' q (c_str s)
                                 (of_nat (length s + 1))))))
     | None \<Rightarrow>
         Some (case new_chars (scast (scast (of_nat (length s + 1) :: length_type) + 4 :: c_int)) of
                 Inl e \<Rightarrow> Inl e
               | Inr nb \<Rightarrow> write_record t (slot_index s) nb 0 (c_str s) (of_nat (length s + 1))))"
proof -
  from s have z: "0 \<notin> set s" and l: "length s < 32768"
    by (simp_all add: valid_str_def)
  have la: "length_arg (c_str s) 0 = Inr (of_nat (length s + 1))"
    by (rule length_arg_c [OF z])
  from hash_valid [OF l] obtain h where
    h: "hash (c_str s) (of_nat (length s + 1) - 1) 23 = Inr h" and hi: "unat h = slot_index s"
    by blast
  have da: "data_at t (slot_index s) = Inr (slot_image (rss ! slot_index s))"
    by (rule table_repr_data_at [OF T slot_index_less])
  show ?thesis
    unfolding insert_ah_def la sum.case h da search_def hi option.case
    by (simp split: option.split)
qed

lemma insert_present:
  assumes T: "table_repr t rss" and s: "valid_str s" and "s \<in> set (rss ! slot_index s)"
  shows "insert_ah t (c_str s) 0 = Some (Inr t)"
proof -
  define rs where "rs = rss ! slot_index s"
  from assms(3) have ne: "rs \<noteq> []" and mem: "s \<in> set rs"
    by (auto simp: rs_def)
  from T slot_index_less [of s] have "slot_ok (slot_index s) rs"
    by (simp add: table_repr_def rs_def)
  then have v: "\<forall>r\<in>set rs. valid_str r"
    by (simp add: slot_ok_def)
  from s have z: "0 \<notin> set s"
    by (simp add: valid_str_def)
  have se: "search_slot (c_str s) (of_nat (length s + 1)) (map Some (enc_records rs @ [0, 0])) =
      Some (Inr 0)"
    using search_slot_image [OF v z, of "of_nat (length s + 1)"] mem by simp
  show ?thesis
    unfolding insert_unfold [OF T s] rs_def [symmetric] slot_image_Some [OF ne] option.case se
    by simp
qed

lemma insert_fresh_empty:
  assumes s: "valid_str s"
  shows "(case new_chars (scast (scast (of_nat (length s + 1) :: length_type) + 4 :: c_int)) of
            Inl e \<Rightarrow> Inl e
          | Inr nb \<Rightarrow> write_record t i nb 0 (c_str s) (of_nat (length s + 1))) =
    Inr (t\<lparr>ah_data := (ah_data t)[i := slot_image ([] @ [s])], ah_size := ah_size t + 1\<rparr>)"
proof -
  from s have z: "0 \<notin> set s" and l: "length s < 32767"
    by (simp_all add: valid_str_def)
  have c1: "(scast (of_nat (length s + 1) :: length_type) :: c_int) = of_nat (length s + 1)"
    using l by (intro scast_of_nat16_32) simp
  have c2: "(of_nat (length s + 1) + 4 :: c_int) = of_nat (length s + 5)"
    by simp
  have c3: "(scast (of_nat (length s + 5) :: c_int) :: size_t) = of_nat (length s + 5)"
    using l by (intro scast_of_nat32_64) simp
  have nc: "new_chars (of_nat (length s + 5)) = Inr (replicate (length s + 5) None)"
    using l by (intro new_chars_of_nat) simp
  have wr: "write_record t i (replicate (length s + 5) None) 0 (s @ 0 # []) (of_nat (length s + 1)) =
     Inr (t\<lparr>ah_data := (ah_data t)[i := Some (take 0 (replicate (length s + 5) None) @
              map Some (enc_record s @ [0, 0]) @
              drop (0 + length s + 5) (replicate (length s + 5) None))],
            ah_size := ah_size t + 1\<rparr>)"
    using z l by (intro write_record_c) simp_all
  have im: "slot_image ([] @ [s]) = Some (map Some (enc_record s @ [0, 0]))"
    by (simp add: slot_image_def enc_records_Cons enc_records_Nil)
  show ?thesis
    unfolding c1 c2 c3 nc sum.case im using wr by (simp add: c_str_def)
qed

lemma insert_fresh_append:
  assumes s: "valid_str s" and ne: "rs \<noteq> []" and room: "length (enc_records rs) < 2 ^ 31"
  defines "sz \<equiv> of_nat (length (enc_records rs)) :: c_int"
  shows "(case new_chars (scast sz + 4 + scast (of_nat (length s + 1) :: length_type)) of
            Inl e \<Rightarrow> Inl e
          | Inr nb \<Rightarrow>
              (case memcpy nb (map Some (enc_records rs @ [0, 0])) (scast sz) of
                 Inl e \<Rightarrow> Inl e
               | Inr nb' \<Rightarrow>
                   (case ptr_add 0 (sint sz) of
                      Inl e \<Rightarrow> Inl e
                    | Inr q \<Rightarrow> write_record t i nb' q (c_str s) (of_nat (length s + 1))))) =
    Inr (t\<lparr>ah_data := (ah_data t)[i := slot_image (rs @ [s])], ah_size := ah_size t + 1\<rparr>)"
proof -
  define B where "B = length (enc_records rs)"
  define nb' where "nb' = map Some (enc_records rs) @ replicate (length s + 5) (None :: byte option)"
  from s have z: "0 \<notin> set s" and l: "length s < 32767"
    by (simp_all add: valid_str_def)
  have B: "B < 2 ^ 31"
    using room by (simp add: B_def)
  have c1: "(scast sz :: size_t) = of_nat B"
    unfolding sz_def B_def [symmetric] using B by (rule scast_of_nat32_64)
  have c2: "(scast (of_nat (length s + 1) :: length_type) :: size_t) = of_nat (length s + 1)"
    using l by (intro scast_of_nat16_64) simp
  have c3: "(of_nat B + 4 + of_nat (length s + 1) :: size_t) = of_nat (B + length s + 5)"
    by simp
  have nc: "new_chars (of_nat (B + length s + 5)) = Inr (replicate (B + length s + 5) None)"
    using l B by (intro new_chars_of_nat) simp
  have un: "unat (of_nat B :: size_t) = B"
    using B by (intro unat_of_nat64) simp
  have mc: "memcpy (replicate (B + length s + 5) None) (map Some (enc_records rs @ [0, 0])) (of_nat B) =
      Inr nb'"
    unfolding memcpy_def un nb'_def by (simp add: B_def add.assoc replicate_add [symmetric] del: replicate_add)
  have pa: "ptr_add 0 (sint sz) = Inr B"
    unfolding sz_def B_def [symmetric] using B by (simp add: ptr_add_def sint_of_nat32)
  have wr: "write_record t i nb' B (s @ 0 # []) (of_nat (length s + 1)) =
     Inr (t\<lparr>ah_data := (ah_data t)[i := Some (take B nb' @ map Some (enc_record s @ [0, 0]) @
              drop (B + length s + 5) nb')],
            ah_size := ah_size t + 1\<rparr>)"
    using z l by (intro write_record_c) (simp_all add: nb'_def B_def)
  have tk: "take B nb' = map Some (enc_records rs)"
    by (simp add: nb'_def B_def)
  have dr: "drop (B + length s + 5) nb' = []"
    by (simp add: nb'_def B_def)
  have im: "slot_image (rs @ [s]) = Some (map Some (enc_records rs) @ map Some (enc_record s @ [0, 0]) @ [])"
    by (simp add: slot_image_def enc_records_append enc_records_Cons enc_records_Nil)
  show ?thesis
    unfolding c1 c2 c3 nc sum.case mc pa im using wr unfolding tk dr by (simp add: c_str_def)
qed

lemma insert_fresh_full:
  assumes s: "valid_str s"
    and big: "2 ^ 31 \<le> length (enc_records rs)" "length (enc_records rs) < 2 ^ 31 + 32770"
  defines "sz \<equiv> of_nat (length (enc_records rs)) :: c_int"
  shows "(case new_chars (scast sz + 4 + scast (of_nat (length s + 1) :: length_type)) of
            Inl e \<Rightarrow> Inl e
          | Inr nb \<Rightarrow> f nb) = Inl BadAlloc"
proof -
  from s have "length s + 1 < 32768"
    by (simp add: valid_str_def)
  from new_chars_negative [OF big this] show ?thesis
    unfolding sz_def by simp
qed

lemma table_repr_slot:
  "table_repr t rss \<Longrightarrow> i < SLOT_COUNT \<Longrightarrow> slot_ok i (rss ! i)"
  by (simp add: table_repr_def)

lemma slot_search_fresh:
  assumes ok: "slot_ok i rs" and ne: "rs \<noteq> []" and z: "0 \<notin> set s"
    and fresh: "\<not> (s \<in> set rs \<and> of_nat (length s + 1) = len)"
  shows "\<exists>sz. search_slot (c_str s) len (map Some (enc_records rs @ [0, 0])) = Some (Inr sz) \<and>
     sz = of_nat (length (enc_records rs)) \<and> sz \<noteq> 0"
proof -
  from ok have v: "\<forall>r\<in>set rs. valid_str r" and b: "length (enc_records rs) < 2 ^ 31 + 32770"
    by (simp_all add: slot_ok_def)
  have "(of_nat (length (enc_records rs)) :: c_int) \<noteq> 0"
    using enc_records_pos [OF ne] b by (intro of_nat32_nz) simp_all
  then show ?thesis
    using search_slot_image [OF v z, of len] fresh by simp
qed

lemma insert_fresh:
  assumes T: "table_repr t rss" and s: "valid_str s" and fresh: "s \<notin> set (rss ! slot_index s)"
  shows "if length (enc_records (rss ! slot_index s)) < 2 ^ 31
    then insert_ah t (c_str s) 0 =
        Some (Inr (t\<lparr>ah_data := (ah_data t)[slot_index s := slot_image (rss ! slot_index s @ [s])],
                      ah_size := ah_size t + 1\<rparr>)) \<and>
      table_repr (t\<lparr>ah_data := (ah_data t)[slot_index s := slot_image (rss ! slot_index s @ [s])],
                      ah_size := ah_size t + 1\<rparr>)
        (rss[slot_index s := rss ! slot_index s @ [s]])
    else insert_ah t (c_str s) 0 = Some (Inl BadAlloc)"
proof -
  define i where "i = slot_index s"
  define rs where "rs = rss ! i"
  have i: "i < SLOT_COUNT"
    unfolding i_def by (rule slot_index_less)
  have ok: "slot_ok i rs"
    unfolding rs_def by (rule table_repr_slot [OF T i])
  from s have z: "0 \<notin> set s"
    by (simp add: valid_str_def)
  have fr: "s \<notin> set rs"
    using fresh by (simp add: rs_def i_def)
  have un: "insert_ah t (c_str s) 0 =
    (case slot_image rs of
       Some p \<Rightarrow>
         (case search_slot (c_str s) (of_nat (length s + 1)) p of
            None \<Rightarrow> None
          | Some (Inl e) \<Rightarrow> Some (Inl e)
          | Some (Inr sz) \<Rightarrow>
              if sz = 0 then Some (Inr t)
              else Some
                (case new_chars (scast sz + 4 + scast (of_nat (length s + 1) :: length_type)) of
                   Inl e \<Rightarrow> Inl e
                 | Inr nb \<Rightarrow>
                     (case memcpy nb p (scast sz) of
                        Inl e \<Rightarrow> Inl e
                      | Inr nb' \<Rightarrow>
                          (case ptr_add 0 (sint sz) of
                             Inl e \<Rightarrow> Inl e
                           | Inr q \<Rightarrow>
                               write_record t i nb' q (c_str s) (of_nat (length s + 1))))))
     | None \<Rightarrow>
         Some (case new_chars (scast (scast (of_nat (length s + 1) :: length_type) + 4 :: c_int)) of
                 Inl e \<Rightarrow> Inl e
               | Inr nb \<Rightarrow> write_record t i nb 0 (c_str s) (of_nat (length s + 1))))"
    unfolding rs_def i_def by (rule insert_unfold [OF T s])
  have upd: "length (enc_records rs) < 2 ^ 31 \<Longrightarrow>
      table_repr (t\<lparr>ah_data := (ah_data t)[i := slot_image (rs @ [s])], ah_size := ah_size t + 1\<rparr>)
        (rss[i := rs @ [s]])"
    unfolding rs_def using fr i s by (intro table_repr_update [OF T]) (simp_all add: i_def rs_def)
  show ?thesis
  proof (cases "rs = []")
    case True
    have "insert_ah t (c_str s) 0 =
        Some (Inr (t\<lparr>ah_data := (ah_data t)[i := slot_image (rs @ [s])], ah_size := ah_size t + 1\<rparr>))"
      unfolding un True slot_image_Nil option.case insert_fresh_empty [OF s] ..
    moreover have "length (enc_records rs) < 2 ^ 31"
      by (simp add: True enc_records_Nil)
    ultimately show ?thesis
      using upd unfolding i_def [symmetric] rs_def [symmetric] by simp
  next
    case False
    from slot_search_fresh [OF ok False z, of "of_nat (length s + 1)"] fr
    obtain sz where se: "search_slot (c_str s) (of_nat (length s + 1)) (map Some (enc_records rs @ [0, 0])) =
        Some (Inr sz)" and sz: "sz = of_nat (length (enc_records rs))" "sz \<noteq> 0"
      by auto
    have un': "insert_ah t (c_str s) 0 =
       Some (case new_chars (scast sz + 4 + scast (of_nat (length s + 1) :: length_type)) of
                   Inl e \<Rightarrow> Inl e
                 | Inr nb \<Rightarrow>
                     (case memcpy nb (map Some (enc_records rs @ [0, 0])) (scast sz) of
                        Inl e \<Rightarrow> Inl e
                      | Inr nb' \<Rightarrow>
                          (case ptr_add 0 (sint sz) of
                             Inl e \<Rightarrow> Inl e
                           | Inr q \<Rightarrow>
                               write_record t i nb' q (c_str s) (of_nat (length s + 1)))))"
      unfolding un slot_image_Some [OF False] option.case se sum.case using sz(2) by simp
    show ?thesis
    proof (cases "length (enc_records rs) < 2 ^ 31")
      case True
      have "insert_ah t (c_str s) 0 =
        Some (Inr (t\<lparr>ah_data := (ah_data t)[i := slot_image (rs @ [s])], ah_size := ah_size t + 1\<rparr>))"
        unfolding un' sz(1) insert_fresh_append [OF s False True] ..
      then show ?thesis
        using upd True unfolding i_def [symmetric] rs_def [symmetric] by simp
    next
      case big: False
      from ok have b: "length (enc_records rs) < 2 ^ 31 + 32770"
        by (simp add: slot_ok_def)
      from big have b': "2 ^ 31 \<le> length (enc_records rs)"
        by simp
      have "insert_ah t (c_str s) 0 = Some (Inl BadAlloc)"
        unfolding un' sz(1) insert_fresh_full [OF s b' b] ..
      then show ?thesis
        using big unfolding i_def [symmetric] rs_def [symmetric] by simp
    qed
  qed
qed

lemma find_repr:
  assumes T: "table_repr t rss" and z: "0 \<notin> set s"
  shows "find_ah t (c_str s) 0 = Some (Inr (s \<in> set (concat rss)))"
proof -
  define len :: length_type where "len = of_nat (length s + 1)"
  have la: "length_arg (c_str s) 0 = Inr len"
    unfolding len_def by (rule length_arg_c [OF z])
  from hash_any [of s] obtain h where
    h: "hash (c_str s) (len - 1) 23 = Inr h" and hr: "unat h < SLOT_COUNT"
    and hv: "length s < 32768 \<longrightarrow> unat h = slot_index s"
    unfolding len_def by blast
  define rs where "rs = rss ! unat h"
  have da: "data_at t (unat h) = Inr (slot_image rs)"
    unfolding rs_def by (rule table_repr_data_at [OF T hr])
  have ok: "slot_ok (unat h) rs"
    unfolding rs_def by (rule table_repr_slot [OF T hr])
  from T have len_rss: "length rss = SLOT_COUNT"
    by (simp add: table_repr_def)
  have mem: "s \<in> set (concat rss) \<longleftrightarrow> s \<in> set rs \<and> of_nat (length s + 1) = len"
  proof
    assume "s \<in> set (concat rss)"
    then obtain rs' where "rs' \<in> set rss" "s \<in> set rs'"
      by auto
    then obtain j where j: "j < length rss" "s \<in> set (rss ! j)"
      by (metis in_set_conv_nth)
    with table_repr_slot [OF T, of j] len_rss have "valid_str s" "slot_index s = j"
      by (auto simp: slot_ok_def)
    with hv have "unat h = j"
      by (simp add: valid_str_def)
    with j show "s \<in> set rs \<and> of_nat (length s + 1) = len"
      by (simp add: rs_def len_def)
  next
    assume "s \<in> set rs \<and> of_nat (length s + 1) = len"
    with hr len_rss show "s \<in> set (concat rss)"
      by (auto simp: rs_def)
  qed
  have un: "find_ah t (c_str s) 0 =
      (case slot_image rs of
         None \<Rightarrow> Some (Inr False)
       | Some buf \<Rightarrow>
           (case search_slot (c_str s) len buf of
              None \<Rightarrow> None
            | Some (Inl e) \<Rightarrow> Some (Inl e)
            | Some (Inr r) \<Rightarrow> Some (Inr (r = 0))))"
    unfolding find_ah_def la sum.case search_def option.case h da
    by (simp split: option.split)
  show ?thesis
  proof (cases "rs = []")
    case True
    then show ?thesis
      unfolding un mem by (simp add: slot_image_Nil)
  next
    case False
    from ok have v: "\<forall>r\<in>set rs. valid_str r"
      by (simp add: slot_ok_def)
    show ?thesis
    proof (cases "s \<in> set rs \<and> of_nat (length s + 1) = len")
      case True
      then show ?thesis
        unfolding un mem slot_image_Some [OF False] option.case search_slot_image [OF v z]
        by simp
    next
      case fresh: False
      from slot_search_fresh [OF ok False z fresh] obtain sz where
        "search_slot (c_str s) len (map Some (enc_records rs @ [0, 0])) = Some (Inr sz)" "sz \<noteq> 0"
        by blast
      then show ?thesis
        unfolding un mem slot_image_Some [OF False] option.case using fresh by simp
    qed
  qed
qed

lemma table_repr_new: "table_repr array_hash_new (replicate SLOT_COUNT [])"
  by (simp add: table_repr_def array_hash_new_def slot_image_def slot_ok_def enc_records_Nil)

lemma length_enc_records: "length (enc_records rs) = str_bytes rs"
  by (induction rs) (simp_all add: enc_records_Nil enc_records_Cons length_enc_record str_bytes_def)

lemma str_bytes_concat_update:
  "i < length rss \<Longrightarrow>
   str_bytes (concat (rss[i := rss ! i @ [s]])) = str_bytes (concat rss) + (length s + 3)"
proof (induction rss arbitrary: i)
  case Nil
  then show ?case by simp
next
  case (Cons rs rss)
  then show ?case by (cases i) (auto simp: str_bytes_def)
qed

lemma str_bytes_slot_le:
  "i < length rss \<Longrightarrow> str_bytes (rss ! i) \<le> str_bytes (concat rss)"
proof (induction rss arbitrary: i)
  case Nil
  then show ?case by simp
next
  case (Cons rs rss)
  then show ?case by (cases i) (auto simp: str_bytes_def intro: trans_le_add2)
qed

lemma valid_mem_slot:
  assumes T: "table_repr t rss" and s: "valid_str s"
  shows "s \<in> set (rss ! slot_index s) \<longleftrightarrow> s \<in> set (concat rss)"
proof
  from T have len: "length rss = SLOT_COUNT"
    by (simp add: table_repr_def)
  {
    assume "s \<in> set (rss ! slot_index s)"
    with slot_index_less [of s] len show "s \<in> set (concat rss)"
      by auto
  next
    assume "s \<in> set (concat rss)"
    then obtain rs' where "rs' \<in> set rss" "s \<in> set rs'"
      by auto
    then obtain j where j: "j < length rss" "s \<in> set (rss ! j)"
      by (metis in_set_conv_nth)
    with table_repr_slot [OF T, of j] len have "slot_index s = j"
      by (auto simp: slot_ok_def)
    with j show "s \<in> set (rss ! slot_index s)"
      by simp
  }
qed

lemma packed_new: "packed array_hash_new (replicate SLOT_COUNT []) {}"
  by (simp add: packed_def table_repr_new)

lemma packed_insert:
  assumes P: "packed t rss S" and s: "valid_str s" and ins: "insert_ah t (c_str s) 0 = Some (Inr t')"
  shows "\<exists>rss'. packed t' rss' (insert s S) \<and>
     str_bytes (concat rss') \<le> str_bytes (concat rss) + (length s + 3) \<and>
     (s \<in> S \<longrightarrow> t' = t)"
proof -
  from P have T: "table_repr t rss" and S: "set (concat rss) = S" and c: "length (concat rss) = card S"
    by (simp_all add: packed_def)
  from T have len: "length rss = SLOT_COUNT"
    by (simp add: table_repr_def)
  show ?thesis
  proof (cases "s \<in> S")
    case True
    then have "s \<in> set (rss ! slot_index s)"
      using valid_mem_slot [OF T s] unfolding S [symmetric] by blast
    from insert_present [OF T s this] ins have "t' = t"
      by simp
    with P True show ?thesis
      by (auto simp: insert_absorb)
  next
    case False
    then have fresh: "s \<notin> set (rss ! slot_index s)"
      using valid_mem_slot [OF T s] unfolding S [symmetric] by blast
    let ?rss' = "rss[slot_index s := rss ! slot_index s @ [s]]"
    from insert_fresh [OF T s fresh] ins have T': "table_repr t' ?rss'"
      by (auto split: if_splits)
    have i: "slot_index s < length rss"
      using slot_index_less [of s] len by simp
    have "finite S"
      using S by (metis List.finite_set)
    then have "card (insert s S) = Suc (card S)"
      using False by simp
    then have "packed t' ?rss' (insert s S)"
      unfolding packed_def using T' S c set_concat_update [OF i, of s] length_concat_update [OF i, of s]
      by simp
    with str_bytes_concat_update [OF i, of s] False show ?thesis
      by auto
  qed
qed

lemma packed_inserts:
  assumes "packed t rss S" "\<forall>s\<in>set ss. valid_str s" "inserts t ss = Some (Inr t')"
  shows "\<exists>rss'. packed t' rss' (S \<union> set ss) \<and>
     str_bytes (concat rss') \<le> str_bytes (concat rss) + str_bytes ss"
  using assms
proof (induction ss arbitrary: t rss S)
  case Nil
  then show ?case by (auto simp: str_bytes_def)
next
  case (Cons s ss)
  from Cons.prems(3) obtain t1 where
    t1: "insert_ah t (c_str s) 0 = Some (Inr t1)" and rest: "inserts t1 ss = Some (Inr t')"
    by (auto split: option.splits sum.splits)
  from Cons.prems(2) have s: "valid_str s" and ss: "\<forall>s\<in>set ss. valid_str s"
    by simp_all
  from packed_insert [OF Cons.prems(1) s t1] obtain rss1 where
    p1: "packed t1 rss1 (insert s S)"
    and b1: "str_bytes (concat rss1) \<le> str_bytes (concat rss) + (length s + 3)"
    by blast
  from Cons.IH [OF p1 ss rest] obtain rss' where
    p': "packed t' rss' (insert s S \<union> set ss)"
    and b': "str_bytes (concat rss') \<le> str_bytes (concat rss1) + str_bytes ss"
    by blast
  have "str_bytes (concat rss') \<le> str_bytes (concat rss) + str_bytes (s # ss)"
    using b1 b' by (simp add: str_bytes_def)
  with p' show ?case
    by auto
qed

lemma reachable_packed:
  assumes "\<forall>s\<in>set ss. valid_str s" "inserts array_hash_new ss = Some (Inr t)"
  shows "\<exists>rss. packed t rss (set ss) \<and> str_bytes (concat rss) \<le> str_bytes ss"
  using packed_inserts [OF packed_new assms] by (simp add: str_bytes_def)

lemma insert_succeeds:
  assumes P: "packed t rss S" and s: "valid_str s" and room: "str_bytes (concat rss) < 2 ^ 31"
  shows "\<exists>t'. insert_ah t (c_str s) 0 = Some (Inr t')"
proof -
  from P have T: "table_repr t rss"
    by (simp add: packed_def)
  then have len: "length rss = SLOT_COUNT"
    by (simp add: table_repr_def)
  show ?thesis
  proof (cases "s \<in> set (rss ! slot_index s)")
    case True
    from insert_present [OF T s True] show ?thesis
      by blast
  next
    case False
    have "str_bytes (rss ! slot_index s) \<le> str_bytes (concat rss)"
      using slot_index_less [of s] len by (intro str_bytes_slot_le) simp
    with room have "length (enc_records (rss ! slot_index s)) < 2 ^ 31"
      by (simp add: length_enc_records)
    with insert_fresh [OF T s False] show ?thesis
      by auto
  qed
qed

lemma inserts_succeed:
  assumes "packed t rss S" "\<forall>s\<in>set ss. valid_str s" "str_bytes (concat rss) + str_bytes ss < 2 ^ 31"
  shows "\<exists>t'. inserts t ss = Some (Inr t')"
  using assms
proof (induction ss arbitrary: t rss S)
  case Nil
  then show ?case by simp
next
  case (Cons s ss)
  from Cons.prems(2) have s: "valid_str s" and ss: "\<forall>s\<in>set ss. valid_str s"
    by simp_all
  from Cons.prems(3) have r: "str_bytes (concat rss) < 2 ^ 31"
    by simp
  from insert_succeeds [OF Cons.prems(1) s r] obtain t1 where
    t1: "insert_ah t (c_str s) 0 = Some (Inr t1)"
    by blast
  from packed_insert [OF Cons.prems(1) s t1] obtain rss1 where
    p1: "packed t1 rss1 (insert s S)"
    and b1: "str_bytes (concat rss1) \<le> str_bytes (concat rss) + (length s + 3)"
    by blast
  have "str_bytes (concat rss1) + str_bytes ss < 2 ^ 31"
    using b1 Cons.prems(3) by (simp add: str_bytes_def)
  from Cons.IH [OF p1 ss this] t1 show ?case
    by simp
qed

lemma inserts_total:
  assumes "packed t rss S" "\<forall>s\<in>set ss. valid_str s"
  shows "(\<exists>t'. inserts t ss = Some (Inr t')) \<or> inserts t ss = Some (Inl BadAlloc)"
  using assms
proof (induction ss arbitrary: t rss S)
  case Nil
  then show ?case by simp
next
  case (Cons s ss)
  from Cons.prems(1) have T: "table_repr t rss"
    by (simp add: packed_def)
  from Cons.prems(2) have s: "valid_str s" and ss: "\<forall>s\<in>set ss. valid_str s"
    by simp_all
  have "(\<exists>t1. insert_ah t (c_str s) 0 = Some (Inr t1)) \<or>
      insert_ah t (c_str s) 0 = Some (Inl BadAlloc)"
  proof (cases "s \<in> set (rss ! slot_index s)")
    case True
    from insert_present [OF T s True] show ?thesis
      by blast
  next
    case False
    from insert_fresh [OF T s False] show ?thesis
      by (auto split: if_splits)
  qed
  then show ?case
  proof
    assume "\<exists>t1. insert_ah t (c_str s) 0 = Some (Inr t1)"
    then obtain t1 where t1: "insert_ah t (c_str s) 0 = Some (Inr t1)"
      by blast
    from packed_insert [OF Cons.prems(1) s t1] obtain rss1 where
      "packed t1 rss1 (insert s S)"
      by blast
    from Cons.IH [OF this ss] t1 show ?thesis
      by simp
  next
    assume "insert_ah t (c_str s) 0 = Some (Inl BadAlloc)"
    then show ?thesis
      by simp
  qed
qed

lemma record_count_records:
  "\<forall>r\<in>set rs. valid_str r \<Longrightarrow>
   record_count (map Some (pre @ enc_records rs @ [0, 0])) (length pre) = length rs"
proof (induction rs arbitrary: pre)
  case Nil
  have "read_length (map Some (pre @ enc_length 0 @ [])) (length pre) = Inr 0"
    by (rule read_length_enc)
  then have "read_length (map Some (pre @ [0, 0])) (length pre) = Inr 0"
    by (simp add: enc_length_def)
  then show ?case
    by (subst record_count.simps) (simp add: enc_records_Nil)
next
  case (Cons r rs)
  define w :: length_type where "w = of_nat (length r + 1)"
  define buf where "buf = map Some (pre @ enc_records (r # rs) @ [0, 0])"
  from Cons.prems have r: "length r < 32767" and rs: "\<forall>r\<in>set rs. valid_str r"
    by (simp_all add: valid_str_def)
  have buf1: "buf = map Some (pre @ enc_length w @ (r @ 0 # enc_records rs @ [0, 0]))"
    by (simp add: buf_def w_def enc_records_Cons enc_record_def)
  have buf3: "buf = map Some ((pre @ enc_record r) @ enc_records rs @ [0, 0])"
    by (simp add: buf_def enc_records_Cons)
  have rd: "read_length buf (length pre) = Inr w"
    unfolding buf1 by (rule read_length_enc)
  have sw: "sint w = int (length r + 1)"
    unfolding w_def using r by (intro sint_of_nat16) simp
  have nx: "length pre + 2 + nat (sint w) = length (pre @ enc_record r)"
    by (simp add: sw length_enc_record)
  have IH: "record_count buf (length (pre @ enc_record r)) = length rs"
    unfolding buf3 by (rule Cons.IH [OF rs])
  have "record_count buf (length pre) = 1 + record_count buf (length (pre @ enc_record r))"
    by (subst record_count.simps) (simp only: rd sum.case sw nx [unfolded sw], simp)
  then show ?case
    unfolding buf_def [symmetric] IH by simp
qed

lemma record_count_slot_image:
  "\<forall>r\<in>set rs. valid_str r \<Longrightarrow>
   (case slot_image rs of None \<Rightarrow> 0 | Some buf \<Rightarrow> record_count buf 0) = length rs"
  using record_count_records [of rs "[]"] by (simp add: slot_image_def)

lemma total_records_repr:
  assumes "table_repr t rss"
  shows "total_records t = length (concat rss)"
proof -
  from assms have d: "ah_data t = map slot_image rss" and len: "length rss = SLOT_COUNT"
    and ok: "\<forall>i<SLOT_COUNT. slot_ok i (rss ! i)"
    by (simp_all add: table_repr_def)
  have v: "\<forall>rs\<in>set rss. \<forall>r\<in>set rs. valid_str r"
  proof
    fix rs assume "rs \<in> set rss"
    then obtain i where "i < length rss" "rs = rss ! i"
      by (metis in_set_conv_nth)
    with ok len show "\<forall>r\<in>set rs. valid_str r"
      by (simp add: slot_ok_def)
  qed
  have "sum_list (map (\<lambda>slot. case slot of None \<Rightarrow> 0 | Some buf \<Rightarrow> record_count buf 0)
        (map slot_image rss)) = sum_list (map length rss)"
    using v by (induction rss) (simp_all add: record_count_slot_image)
  then show ?thesis
    by (simp only: total_records_def d length_concat)
qed

section \<open>Membership, idempotence and the counter\<close>

lemma example_valid: "\<forall>s\<in>set example_strings. valid_str s"
  by (simp add: example_strings_def valid_str_def)

lemma example_inserts: "inserts array_hash_new example_strings = Some (Inr example_table)"
  by code_simp


lemma find_reachable:
  assumes "\<forall>x\<in>set ss. valid_str x" and "inserts array_hash_new ss = Some (Inr t)"
    and "0 \<notin> set s"
  shows "find_ah t (c_str s) 0 = Some (Inr (s \<in> set ss))"
proof -
  from reachable_packed [OF assms(1,2)] obtain rss where
    T: "table_repr t rss" and S: "set (concat rss) = set ss"
    by (auto simp: packed_def)
  have "find_ah t (c_str s) 0 = Some (Inr (s \<in> set (concat rss)))"
    by (rule find_repr [OF T assms(3)])
  then show ?thesis
    unfolding S .
qed

text \<open>
  C1. For every finite sequence of inserts of strings that fit the length field, on a
  table created empty, \<open>find\<close> returns true for every string that was inserted and false
  for every other string (the string looked up may be any null-terminated string). The
  sequence of inserts always returns: with a table, or with the failure of an
  allocation, which cannot happen while fewer than \<open>2 ^ 31\<close> bytes are inserted; the
  answers of \<open>find\<close> are those on the table it returns.
\<close>

theorem find_after_inserts:
  assumes "\<forall>x\<in>set ss. valid_str x" and "0 \<notin> set s"
  shows "((\<exists>t. inserts array_hash_new ss = Some (Inr t)) \<or>
       inserts array_hash_new ss = Some (Inl BadAlloc)) \<and>
    (str_bytes ss < 2 ^ 31 \<longrightarrow> (\<exists>t. inserts array_hash_new ss = Some (Inr t))) \<and>
    (\<forall>t. inserts array_hash_new ss = Some (Inr t) \<longrightarrow>
       find_ah t (c_str s) 0 = Some (Inr (s \<in> set ss)))"
proof -
  have 1: "(\<exists>t. inserts array_hash_new ss = Some (Inr t)) \<or>
      inserts array_hash_new ss = Some (Inl BadAlloc)"
    by (rule inserts_total [OF packed_new assms(1)])
  have "str_bytes (concat (replicate SLOT_COUNT ([] :: byte list list))) = 0"
    by (simp add: str_bytes_def)
  then have 2: "str_bytes ss < 2 ^ 31 \<longrightarrow> (\<exists>t. inserts array_hash_new ss = Some (Inr t))"
    using inserts_succeed [OF packed_new assms(1)] by simp
  from 1 2 find_reachable [OF assms(1) _ assms(2)] show ?thesis
    by blast
qed

theorem find_after_inserts_witness:
  "list_all valid_str example_strings \<and>
   0 \<notin> set [0x73, 0x77 :: byte] \<and> 0 \<notin> set [0x61, 0x62 :: byte] \<and>
   inserts array_hash_new example_strings = Some (Inr example_table) \<and>
   find_ah example_table (c_str [0x73, 0x77]) 0 = Some (Inr True) \<and>
   find_ah example_table (c_str [0x61, 0x62]) 0 = Some (Inr False)"
proof -
  have a: "0 \<notin> set [0x73, 0x77 :: byte]" and b: "0 \<notin> set [0x61, 0x62 :: byte]"
    by simp_all
  show ?thesis
    using find_after_inserts [OF example_valid a] find_after_inserts [OF example_valid b]
      example_valid example_inserts
    by (simp add: list_all_iff example_strings_def)
qed

text \<open>
  C4. Inserting a string that the table already stores is a no-op: the insert returns
  the table it was given (the same counter, the same slot array, so no record sequence
  changes), and \<open>find\<close> returns true for the string before and after it.
\<close>

theorem insert_stored_noop:
  assumes "\<forall>x\<in>set ss. valid_str x" and "inserts array_hash_new ss = Some (Inr t)"
    and "s \<in> set ss"
  shows "find_ah t (c_str s) 0 = Some (Inr True) \<and> insert_ah t (c_str s) 0 = Some (Inr t)"
proof -
  from assms(1,3) have s: "valid_str s"
    by simp
  then have z: "0 \<notin> set s"
    by (simp add: valid_str_def)
  from reachable_packed [OF assms(1,2)] obtain rss where
    T: "table_repr t rss" and S: "set (concat rss) = set ss"
    by (auto simp: packed_def)
  have f: "find_ah t (c_str s) 0 = Some (Inr True)"
    using find_reachable [OF assms(1,2) z] assms(3) by simp
  have "s \<in> set (rss ! slot_index s)"
    using valid_mem_slot [OF T s] assms(3) unfolding S by blast
  from insert_present [OF T s this] f show ?thesis
    by simp
qed

theorem insert_stored_noop_witness:
  "list_all valid_str example_strings \<and>
   inserts array_hash_new example_strings = Some (Inr example_table) \<and>
   [0x73, 0x77] \<in> set example_strings \<and>
   find_ah example_table (c_str [0x73, 0x77]) 0 = Some (Inr True) \<and>
   insert_ah example_table (c_str [0x73, 0x77]) 0 = Some (Inr example_table)"
proof -
  have m: "[0x73, 0x77] \<in> set example_strings"
    by (simp add: example_strings_def)
  show ?thesis
    using insert_stored_noop [OF example_valid example_inserts m] example_valid example_inserts m
    by (simp add: list_all_iff)
qed



section \<open>The slot index\<close>

lemma and_2047_mod: "uint (h AND 2047 :: c_int) = sint h mod 2048"
proof -
  have "h AND 2047 = take_bit 11 h"
    by (simp add: take_bit_eq_mask mask_eq_exp_minus_1)
  then have "uint (h AND 2047) = take_bit 11 (uint h)"
    by (simp add: unsigned_take_bit_eq)
  also have "\<dots> = take_bit 11 (take_bit 32 (sint h))"
    using uint_sint [of h] by simp
  also have "\<dots> = take_bit 11 (sint h)"
    by simp
  finally show ?thesis
    by (simp add: take_bit_eq_mod)
qed

lemma and_2047_mod_unat: "unat (h AND 2047 :: c_int) = unat h mod 2048"
proof -
  have "h AND 2047 = take_bit 11 h"
    by (simp add: take_bit_eq_mask mask_eq_exp_minus_1)
  then have "unat (h AND 2047) = take_bit 11 (unat h)"
    by (simp add: unsigned_take_bit_eq)
  then show ?thesis
    by (simp add: take_bit_eq_mod)
qed

lemma find_unfold:
  assumes s: "valid_str s" and len: "length (ah_data t) = SLOT_COUNT"
  shows "find_ah t (c_str s) 0 =
    (case ah_data t ! slot_index s of
       None \<Rightarrow> Some (Inr False)
     | Some buf \<Rightarrow>
         (case search_slot (c_str s) (of_nat (length s + 1)) buf of
            None \<Rightarrow> None
          | Some (Inl e) \<Rightarrow> Some (Inl e)
          | Some (Inr r) \<Rightarrow> Some (Inr (r = 0))))"
proof -
  from s have z: "0 \<notin> set s" and l: "length s < 32768"
    by (simp_all add: valid_str_def)
  have la: "length_arg (c_str s) 0 = Inr (of_nat (length s + 1))"
    by (rule length_arg_c [OF z])
  from hash_valid [OF l] obtain h where
    h: "hash (c_str s) (of_nat (length s + 1) - 1) 23 = Inr h" and hi: "unat h = slot_index s"
    by blast
  have da: "data_at t (slot_index s) = Inr (ah_data t ! slot_index s)"
    using slot_index_less [of s] len by (simp add: data_at_def)
  show ?thesis
    unfolding find_ah_def la sum.case search_def option.case h hi da
    by (simp split: option.split)
qed

lemma write_record_frame:
  "write_record t i buf p str len = Inr t' \<Longrightarrow>
   \<exists>b. t' = t\<lparr>ah_data := (ah_data t)[i := Some b], ah_size := ah_size t + 1\<rparr>"
  by (auto simp: write_record_def split: sum.splits)

lemma insert_frame:
  assumes s: "valid_str s" and len: "length (ah_data t) = SLOT_COUNT"
    and ins: "insert_ah t (c_str s) 0 = Some (Inr t')"
  shows "t' = t \<or> (\<exists>b. t' = t\<lparr>ah_data := (ah_data t)[slot_index s := Some b],
                                   ah_size := ah_size t + 1\<rparr>)"
proof -
  from s have z: "0 \<notin> set s" and l: "length s < 32768"
    by (simp_all add: valid_str_def)
  have la: "length_arg (c_str s) 0 = Inr (of_nat (length s + 1))"
    by (rule length_arg_c [OF z])
  from hash_valid [OF l] obtain h where
    h: "hash (c_str s) (of_nat (length s + 1) - 1) 23 = Inr h" and hi: "unat h = slot_index s"
    by blast
  have da: "data_at t (slot_index s) = Inr (ah_data t ! slot_index s)"
    using slot_index_less [of s] len by (simp add: data_at_def)
  from ins show ?thesis
    unfolding insert_ah_def la sum.case h hi da
    by (auto split: option.splits sum.splits if_splits dest!: write_record_frame)
qed

lemma insert_unfold_gen:
  assumes "length_arg str len0 = Inr len" "hash str (len - 1) 23 = Inr h"
    "data_at t (unat h) = Inr slot"
  shows "insert_ah t str len0 =
    (case slot of
       Some p \<Rightarrow>
         (case search_slot str len p of
            None \<Rightarrow> None
          | Some (Inl e) \<Rightarrow> Some (Inl e)
          | Some (Inr sz) \<Rightarrow>
              if sz = 0 then Some (Inr t)
              else Some
                (case new_chars (scast sz + 4 + scast len) of
                   Inl e \<Rightarrow> Inl e
                 | Inr nb \<Rightarrow>
                     (case memcpy nb p (scast sz) of
                        Inl e \<Rightarrow> Inl e
                      | Inr nb' \<Rightarrow>
                          (case ptr_add 0 (sint sz) of
                             Inl e \<Rightarrow> Inl e
                           | Inr q \<Rightarrow> write_record t (unat h) nb' q str len))))
     | None \<Rightarrow>
         Some (case new_chars (scast (scast len + 4 :: c_int)) of
                 Inl e \<Rightarrow> Inl e
               | Inr nb \<Rightarrow> write_record t (unat h) nb 0 str len))"
  unfolding insert_ah_def assms sum.case search_def option.case
  by (simp split: option.split)

lemma insert_empty_slot:
  assumes s: "valid_str s" and len: "length (ah_data t) = SLOT_COUNT"
    and e: "ah_data t ! slot_index s = None"
  shows "insert_ah t (c_str s) 0 =
    Some (Inr (t\<lparr>ah_data := (ah_data t)[slot_index s := Some (map Some (enc_record s @ [0, 0]))],
                 ah_size := ah_size t + 1\<rparr>))"
proof -
  from s have z: "0 \<notin> set s" and l: "length s < 32768"
    by (simp_all add: valid_str_def)
  have la: "length_arg (c_str s) 0 = Inr (of_nat (length s + 1))"
    by (rule length_arg_c [OF z])
  from hash_valid [OF l] obtain h where
    h: "hash (c_str s) (of_nat (length s + 1) - 1) 23 = Inr h" and hi: "unat h = slot_index s"
    by blast
  have da: "data_at t (unat h) = Inr None"
    unfolding hi using slot_index_less [of s] len e by (simp add: data_at_def)
  have im: "slot_image ([] @ [s]) = Some (map Some (enc_record s @ [0, 0]))"
    by (simp add: slot_image_def enc_records_Cons enc_records_Nil)
  show ?thesis
    unfolding insert_unfold_gen [OF la h da] option.case hi insert_fresh_empty [OF s] im ..
qed

lemma slot_contents:
  assumes T: "table_repr t rss" and S: "set (concat rss) = S" and v: "\<forall>x\<in>S. valid_str x"
    and j: "j < SLOT_COUNT"
  shows "set (rss ! j) = {x \<in> S. slot_index x = j}"
proof (intro equalityI subsetI)
  from T have len: "length rss = SLOT_COUNT"
    by (simp add: table_repr_def)
  fix x assume x: "x \<in> set (rss ! j)"
  with j len have "x \<in> set (concat rss)"
    by auto
  with x table_repr_slot [OF T j] show "x \<in> {x \<in> S. slot_index x = j}"
    unfolding S by (simp add: slot_ok_def)
next
  fix x assume "x \<in> {x \<in> S. slot_index x = j}"
  then have x: "x \<in> set (concat rss)" "slot_index x = j" "valid_str x"
    unfolding S using v by simp_all
  with valid_mem_slot [OF T x(3)] show "x \<in> set (rss ! j)"
    by simp
qed

lemma insert_stores_in_slot:
  assumes "\<forall>x\<in>set ss. valid_str x" and "inserts array_hash_new ss = Some (Inr t)"
    and s: "valid_str s"
  shows "(str_bytes ss < 2 ^ 31 \<longrightarrow> (\<exists>t'. insert_ah t (c_str s) 0 = Some (Inr t'))) \<and>
    (\<forall>t'. insert_ah t (c_str s) 0 = Some (Inr t') \<longrightarrow>
       (\<exists>rs. ah_data t' ! slot_index s = slot_image rs \<and> s \<in> set rs \<and>
          set rs = {x \<in> insert s (set ss). slot_index x = slot_index s}))"
proof -
  from reachable_packed [OF assms(1,2)] obtain rss where
    P: "packed t rss (set ss)" and b: "str_bytes (concat rss) \<le> str_bytes ss"
    by blast
  have 1: "str_bytes ss < 2 ^ 31 \<longrightarrow> (\<exists>t'. insert_ah t (c_str s) 0 = Some (Inr t'))"
    using insert_succeeds [OF P s] b by auto
  have 2: "\<exists>rs. ah_data t' ! slot_index s = slot_image rs \<and> s \<in> set rs \<and>
          set rs = {x \<in> insert s (set ss). slot_index x = slot_index s}"
    if ins: "insert_ah t (c_str s) 0 = Some (Inr t')" for t'
  proof -
    from packed_insert [OF P s ins] obtain rss' where
      "packed t' rss' (insert s (set ss))"
      by blast
    then have T': "table_repr t' rss'" and S': "set (concat rss') = insert s (set ss)"
      by (simp_all add: packed_def)
    from T' have d: "ah_data t' = map slot_image rss'" and len: "length rss' = SLOT_COUNT"
      by (simp_all add: table_repr_def)
    have v: "\<forall>x\<in>insert s (set ss). valid_str x"
      using assms(1) s by simp
    have c: "set (rss' ! slot_index s) = {x \<in> insert s (set ss). slot_index x = slot_index s}"
      by (rule slot_contents [OF T' S' v slot_index_less])
    have "ah_data t' ! slot_index s = slot_image (rss' ! slot_index s)"
      using slot_index_less [of s] len by (simp add: d)
    with c show ?thesis
      by blast
  qed
  from 1 2 show ?thesis
    by blast
qed

text \<open>
  C7. The slot of a string is a function of its bytes alone, the same at insert and at
  lookup. \<open>hash\<close> on the string and its length without the terminator returns the
  rolling hash from 23, \<open>h XOR ((h << 5) + (h >> 2) + b)\<close> for each byte \<open>b\<close> before the
  terminator (in 32-bit arithmetic, \<open>>>\<close> arithmetic, \<open>b\<close> a signed \<^verbatim>\<open>char\<close>), masked with
  \<open>SLOT_COUNT - 1\<close>; the masked value is the residue of \<open>h\<close> modulo \<open>SLOT_COUNT\<close> (the
  non-negative residue: for a negative \<open>h\<close> the \<^verbatim>\<open>%\<close> of C++ would be negative). \<open>find\<close>
  reads the slot of that index and no other. \<open>insert\<close> changes no other slot; when that
  slot is empty it puts there the buffer of the one record of the string; and on a table
  built by inserts it returns (fewer than \<open>2 ^ 31\<close> bytes having been inserted) and
  afterwards that slot holds the string, with the strings inserted before that have the
  same index.
\<close>

theorem slot_index_deterministic:
  assumes "valid_str s" and "length (ah_data t) = SLOT_COUNT"
  shows "hash (c_str s) (of_nat (length s + 1) - 1) 23 =
           Inr (foldl hash_step 23 s AND (of_nat SLOT_COUNT - 1)) \<and>
    slot_index s = unat (foldl hash_step 23 s AND (of_nat SLOT_COUNT - 1)) \<and>
    int (slot_index s) = sint (foldl hash_step 23 s) mod int SLOT_COUNT \<and>
    slot_index s < SLOT_COUNT \<and>
    find_ah t (c_str s) 0 =
      (case ah_data t ! slot_index s of
         None \<Rightarrow> Some (Inr False)
       | Some buf \<Rightarrow>
           (case search_slot (c_str s) (of_nat (length s + 1)) buf of
              None \<Rightarrow> None
            | Some (Inl e) \<Rightarrow> Some (Inl e)
            | Some (Inr r) \<Rightarrow> Some (Inr (r = 0)))) \<and>
    (\<forall>t'. insert_ah t (c_str s) 0 = Some (Inr t') \<longrightarrow>
       (\<forall>j<SLOT_COUNT. j \<noteq> slot_index s \<longrightarrow> ah_data t' ! j = ah_data t ! j)) \<and>
    (ah_data t ! slot_index s = None \<longrightarrow>
       insert_ah t (c_str s) 0 =
         Some (Inr (t\<lparr>ah_data := (ah_data t)[slot_index s := Some (map Some (enc_record s @ [0, 0]))],
                      ah_size := ah_size t + 1\<rparr>))) \<and>
    (\<forall>ss. (\<forall>x\<in>set ss. valid_str x) \<longrightarrow> inserts array_hash_new ss = Some (Inr t) \<longrightarrow>
       (str_bytes ss < 2 ^ 31 \<longrightarrow> (\<exists>t'. insert_ah t (c_str s) 0 = Some (Inr t'))) \<and>
       (\<forall>t'. insert_ah t (c_str s) 0 = Some (Inr t') \<longrightarrow>
          (\<exists>rs. ah_data t' ! slot_index s = slot_image rs \<and> s \<in> set rs \<and>
             set rs = {x \<in> insert s (set ss). slot_index x = slot_index s})))"
proof -
  from assms(1) have l: "length s < 32768"
    by (simp add: valid_str_def)
  have 1: "hash (c_str s) (of_nat (length s + 1) - 1) 23 =
      Inr (foldl hash_step 23 s AND (of_nat SLOT_COUNT - 1))"
    using hash_c_str [OF l, of "[0]"] by (simp add: c_str_def SLOT_COUNT_def)
  have 2: "slot_index s = unat (foldl hash_step 23 s AND (of_nat SLOT_COUNT - 1))"
    by (simp add: slot_index_def SLOT_COUNT_def)
  have 3: "int (slot_index s) = sint (foldl hash_step 23 s) mod int SLOT_COUNT"
    using and_2047_mod [of "foldl hash_step 23 s"] by (simp add: slot_index_def SLOT_COUNT_def)
  have 6: "\<forall>t'. insert_ah t (c_str s) 0 = Some (Inr t') \<longrightarrow>
       (\<forall>j<SLOT_COUNT. j \<noteq> slot_index s \<longrightarrow> ah_data t' ! j = ah_data t ! j)"
    using insert_frame [OF assms] by auto
  have 7: "ah_data t ! slot_index s = None \<longrightarrow>
       insert_ah t (c_str s) 0 =
         Some (Inr (t\<lparr>ah_data := (ah_data t)[slot_index s := Some (map Some (enc_record s @ [0, 0]))],
                      ah_size := ah_size t + 1\<rparr>))"
    using insert_empty_slot [OF assms] by blast
  have 8: "\<forall>ss. (\<forall>x\<in>set ss. valid_str x) \<longrightarrow> inserts array_hash_new ss = Some (Inr t) \<longrightarrow>
       (str_bytes ss < 2 ^ 31 \<longrightarrow> (\<exists>t'. insert_ah t (c_str s) 0 = Some (Inr t'))) \<and>
       (\<forall>t'. insert_ah t (c_str s) 0 = Some (Inr t') \<longrightarrow>
          (\<exists>rs. ah_data t' ! slot_index s = slot_image rs \<and> s \<in> set rs \<and>
             set rs = {x \<in> insert s (set ss). slot_index x = slot_index s}))"
    using insert_stores_in_slot [OF _ _ assms(1)] by blast
  from 1 2 3 slot_index_less [of s] find_unfold [OF assms] 6 7 8 show ?thesis
    by blast
qed

theorem slot_index_deterministic_witness:
  "valid_str [0x64, 0x75, 0x63] \<and> length (ah_data example_table) = SLOT_COUNT \<and>
   list_all valid_str example_strings \<and>
   inserts array_hash_new example_strings = Some (Inr example_table) \<and>
   hash (c_str [0x64, 0x75, 0x63]) 3 23 = Inr 101 \<and> slot_index [0x64, 0x75, 0x63] = 101 \<and>
   find_ah example_table (c_str [0x64, 0x75, 0x63]) 0 = Some (Inr False) \<and>
   insert_ah example_table (c_str [0x64, 0x75, 0x63]) 0 = Some (Inr example_table_duc) \<and>
   (\<exists>rs. ah_data example_table_duc ! 101 = slot_image rs \<and>
      set rs = {[0x64, 0x75, 0x63], [0x62, 0x61], [0x73, 0x77]}) \<and>
   find_ah example_table_duc (c_str [0x64, 0x75, 0x63]) 0 = Some (Inr True) \<and>
   valid_str [0x61] \<and> length (ah_data array_hash_new) = SLOT_COUNT \<and>
   slot_index [0x61] = 849 \<and>
   insert_ah array_hash_new (c_str [0x61]) 0 = Some (Inr example_table_a)"
proof -
  have v: "valid_str [0x64, 0x75, 0x63]" and va: "valid_str [0x61]"
    by (simp_all add: valid_str_def)
  have l: "length (ah_data example_table) = SLOT_COUNT"
    and la: "length (ah_data array_hash_new) = SLOT_COUNT"
    by (simp_all add: example_table_def array_hash_new_def)
  have e: "foldl hash_step 23 [0x64, 0x75, 0x63] = 886885"
    and ea: "foldl hash_step 23 [0x61] = 849"
    by code_simp+
  have f: "find_ah example_table (c_str [0x64, 0x75, 0x63]) 0 = Some (Inr False)"
    and f': "find_ah example_table_duc (c_str [0x64, 0x75, 0x63]) 0 = Some (Inr True)"
    by code_simp+
  have i: "insert_ah example_table (c_str [0x64, 0x75, 0x63]) 0 = Some (Inr example_table_duc)"
    by code_simp
  have m: "{x \<in> insert [0x64, 0x75, 0x63] (set example_strings).
        slot_index x = 101} =
      {[0x64, 0x75, 0x63], [0x62, 0x61], [0x73, 0x77]}"
  proof -
    have "slot_index [0x64, 0x75, 0x63] = 101" "slot_index [0x62, 0x61] = 101"
      "slot_index [0x73, 0x77] = 101"
      by code_simp+
    then show ?thesis
      unfolding example_strings_def by auto
  qed
  note d = slot_index_deterministic [OF v l]
  note x = d [THEN conjunct2, THEN conjunct1]
  have x': "slot_index [0x64, 0x75, 0x63] = 101"
    unfolding x e by (simp add: SLOT_COUNT_def)
  have h': "hash (c_str [0x64, 0x75, 0x63]) 3 23 = Inr 101"
    using d [THEN conjunct1] unfolding e by (simp add: SLOT_COUNT_def)
  note d8 = d [THEN conjunct2, THEN conjunct2, THEN conjunct2, THEN conjunct2, THEN conjunct2,
    THEN conjunct2, THEN conjunct2, THEN spec, of example_strings, THEN mp, OF example_valid,
    THEN mp, OF example_inserts, THEN conjunct2, THEN spec, of example_table_duc, THEN mp, OF i]
  from d8 obtain rs where "ah_data example_table_duc ! slot_index [0x64, 0x75, 0x63] = slot_image rs"
    and "set rs = {x \<in> insert [0x64, 0x75, 0x63] (set example_strings).
        slot_index x = slot_index [0x64, 0x75, 0x63]}"
    by (elim exE conjE)
  then have "ah_data example_table_duc ! 101 = slot_image rs \<and>
      set rs = {[0x64, 0x75, 0x63], [0x62, 0x61], [0x73, 0x77]}"
    unfolding x' m by (intro conjI)
  then have r: "\<exists>rs. ah_data example_table_duc ! 101 = slot_image rs \<and>
      set rs = {[0x64, 0x75, 0x63], [0x62, 0x61], [0x73, 0x77]}"
    by (rule exI)
  note da = slot_index_deterministic [OF va la]
  note xa = da [THEN conjunct2, THEN conjunct1]
  have xa': "slot_index [0x61] = 849"
    unfolding xa ea by (simp add: SLOT_COUNT_def)
  have n: "ah_data array_hash_new ! slot_index [0x61] = None"
    unfolding xa' by (simp add: array_hash_new_def SLOT_COUNT_def)
  note d7 = da [THEN conjunct2, THEN conjunct2, THEN conjunct2, THEN conjunct2, THEN conjunct2,
    THEN conjunct2, THEN conjunct1, rule_format, OF n]
  have ia: "insert_ah array_hash_new (c_str [0x61]) 0 = Some (Inr example_table_a)"
    unfolding d7 xa' by (simp add: array_hash_new_def example_table_a_def enc_record_def enc_length_def)
  from example_valid have lv: "list_all valid_str example_strings"
    by (simp add: list_all_iff)
  from v l lv example_inserts h' x' f i r f' va la xa' ia show ?thesis
    by (intro conjI)
qed

section \<open>The empty string and the result of search\<close>

lemma slot_index_empty: "slot_index [] = 23"
  by (simp add: slot_index_def)

lemma enc_record_empty: "enc_record [] = [1, 0, 0]"
  by (simp add: enc_record_def enc_length_def)

text \<open>
  C9. The empty string is stored as a record whose length field is 1, in slot 23, and
  is told apart from absence. On a table built from strings that fit, the empty string
  not among them, \<open>find("")\<close> returns false; an \<open>insert("")\<close> returns whenever fewer than
  \<open>2 ^ 31\<close> bytes were inserted before; after it \<open>find("")\<close> returns true, \<open>size()\<close> has
  counted it, and the buffer of slot 23 is its old records followed by the bytes
  \<open>01 00\<close> (the length 1), \<open>00\<close> (the terminator) and the sentinel \<open>00 00\<close>.
\<close>

theorem empty_string_stored:
  assumes "\<forall>x\<in>set ss. valid_str x" and "inserts array_hash_new ss = Some (Inr t)"
    and "[] \<notin> set ss"
  shows "find_ah t (c_str []) 0 = Some (Inr False) \<and>
    (str_bytes ss < 2 ^ 31 \<longrightarrow> (\<exists>t'. insert_ah t (c_str []) 0 = Some (Inr t'))) \<and>
    (\<forall>t'. insert_ah t (c_str []) 0 = Some (Inr t') \<longrightarrow>
       find_ah t' (c_str []) 0 = Some (Inr True) \<and>
       unat (size_ah t') = card (set ss) + 1 \<and>
       (\<exists>rs. ah_data t ! 23 = slot_image rs \<and>
          ah_data t' ! 23 = Some (map Some (enc_records rs @ [1, 0, 0, 0, 0])) \<and>
          read_length (map Some (enc_records rs @ [1, 0, 0, 0, 0])) (length (enc_records rs)) =
            Inr 1))"
proof -
  have v: "valid_str []"
    by (simp add: valid_str_def)
  from reachable_packed [OF assms(1,2)] obtain rss where
    P: "packed t rss (set ss)" and b: "str_bytes (concat rss) \<le> str_bytes ss"
    by blast
  then have T: "table_repr t rss" and S: "set (concat rss) = set ss"
    and c: "length (concat rss) = card (set ss)"
    by (simp_all add: packed_def)
  from T have len: "length rss = SLOT_COUNT" and d: "ah_data t = map slot_image rss"
    by (simp_all add: table_repr_def)
  define rs where "rs = rss ! 23"
  have fresh: "[] \<notin> set (rss ! slot_index [])"
    using valid_mem_slot [OF T v] assms(3) unfolding S by blast
  have 1: "find_ah t (c_str []) 0 = Some (Inr False)"
    using find_reachable [OF assms(1,2), of "[]"] assms(3) by simp
  have 2: "str_bytes ss < 2 ^ 31 \<longrightarrow> (\<exists>t'. insert_ah t (c_str []) 0 = Some (Inr t'))"
    using insert_succeeds [OF P v] b by auto
  have 3: "find_ah t' (c_str []) 0 = Some (Inr True) \<and>
       unat (size_ah t') = card (set ss) + 1 \<and>
       (\<exists>rs. ah_data t ! 23 = slot_image rs \<and>
          ah_data t' ! 23 = Some (map Some (enc_records rs @ [1, 0, 0, 0, 0])) \<and>
          read_length (map Some (enc_records rs @ [1, 0, 0, 0, 0])) (length (enc_records rs)) =
            Inr 1)"
    if ins: "insert_ah t (c_str []) 0 = Some (Inr t')" for t'
  proof -
    from insert_fresh [OF T v fresh] ins
    have t': "t' = t\<lparr>ah_data := (ah_data t)[23 := slot_image (rs @ [[]])], ah_size := ah_size t + 1\<rparr>"
      and T': "table_repr t' (rss[23 := rs @ [[]]])"
      unfolding slot_index_empty rs_def by (auto split: if_splits)
    have i: "23 < length rss"
      using len by (simp add: SLOT_COUNT_def)
    have "find_ah t' (c_str []) 0 = Some (Inr ([] \<in> set (concat (rss[23 := rs @ [[]]]))))"
      by (rule find_repr [OF T']) simp
    then have f: "find_ah t' (c_str []) 0 = Some (Inr True)"
      unfolding rs_def set_concat_update [OF i] by simp
    have "unat (ah_size t') = length (concat (rss[23 := rs @ [[]]]))"
      using T' by (simp add: table_repr_def)
    then have n: "unat (size_ah t') = card (set ss) + 1"
      using length_concat_update [OF i, of "[]"] c by (simp add: rs_def size_ah_def)
    have d0: "ah_data t ! 23 = slot_image rs"
      using i by (simp add: d rs_def)
    have d1: "ah_data t' ! 23 = Some (map Some (enc_records rs @ [1, 0, 0, 0, 0]))"
      using i by (simp add: t' d slot_image_def enc_records_append enc_records_Cons
          enc_records_Nil enc_record_empty)
    have "read_length (map Some (enc_records rs @ enc_length 1 @ [0, 0, 0]))
        (length (enc_records rs)) = Inr 1"
      by (rule read_length_enc)
    then have r: "read_length (map Some (enc_records rs @ [1, 0, 0, 0, 0]))
        (length (enc_records rs)) = Inr 1"
      by (simp add: enc_length_def)
    from f n d0 d1 r show ?thesis
      by blast
  qed
  from 1 2 3 show ?thesis
    by blast
qed

theorem empty_string_stored_witness:
  "list_all valid_str example_strings \<and>
   inserts array_hash_new example_strings = Some (Inr example_table) \<and>
   [] \<notin> set example_strings \<and>
   find_ah example_table (c_str []) 0 = Some (Inr False) \<and>
   insert_ah example_table (c_str []) 0 =
     Some (Inr (example_table\<lparr>ah_data := (ah_data example_table)[23 := Some (map Some [1, 0, 0, 0, 0])],
                               ah_size := 3\<rparr>)) \<and>
   find_ah (example_table\<lparr>ah_data := (ah_data example_table)[23 := Some (map Some [1, 0, 0, 0, 0])],
                          ah_size := 3\<rparr>) (c_str []) 0 = Some (Inr True)"
proof -
  have n: "[] \<notin> set example_strings"
    by (simp add: example_strings_def)
  have i: "insert_ah example_table (c_str []) 0 =
     Some (Inr (example_table\<lparr>ah_data := (ah_data example_table)[23 := Some (map Some [1, 0, 0, 0, 0])],
                               ah_size := 3\<rparr>))"
    by code_simp
  from empty_string_stored [OF example_valid example_inserts n] i n example_valid example_inserts
  show ?thesis
    by (simp add: list_all_iff)
qed




section \<open>Strings that do not fit the length field\<close>







section \<open>The cursor\<close>

subsection \<open>Scanning the slot array\<close>

lemma begin_loop_empty:
  assumes "length (ah_data t) = SLOT_COUNT" "\<forall>k. i \<le> k \<and> k < SLOT_COUNT \<longrightarrow> ah_data t ! k = None"
  shows "begin_loop t i = Inl OutOfBounds"
  using assms
proof (induction "SLOT_COUNT - i" arbitrary: i)
  case 0
  then show ?case
    by (subst begin_loop.simps) (simp add: data_at_def)
next
  case (Suc n)
  then have i: "i < SLOT_COUNT" and e: "ah_data t ! i = None"
    by auto
  have "begin_loop t (i + 1) = Inl OutOfBounds"
    using Suc.hyps(2) Suc.prems by (intro Suc.hyps(1)) auto
  then show ?case
    using i e Suc.prems(1) by (subst begin_loop.simps) (simp add: data_at_def)
qed

lemma incr_loop_empty:
  assumes "length (ah_data t) = SLOT_COUNT" "i \<le> SLOT_COUNT"
    "\<forall>k. i \<le> k \<and> k < SLOT_COUNT \<longrightarrow> ah_data t ! k = None"
  shows "incr_loop t i reads = Inr (SLOT_COUNT, reads @ [i ..< SLOT_COUNT + 1])"
  using assms
proof (induction "SLOT_COUNT - i" arbitrary: i reads)
  case 0
  then have "i = SLOT_COUNT" by simp
  then show ?case
    by (subst incr_loop.simps) simp
next
  case (Suc n)
  then have i: "i < SLOT_COUNT" and e: "ah_data t ! i = None"
    by auto
  have "incr_loop t (i + 1) (reads @ [i]) = Inr (SLOT_COUNT, (reads @ [i]) @ [i + 1 ..< SLOT_COUNT + 1])"
    using Suc.hyps(2) Suc.prems by (intro Suc.hyps(1)) auto
  moreover have "[i ..< SLOT_COUNT + 1] = i # [i + 1 ..< SLOT_COUNT + 1]"
    using i by (simp add: upt_conv_Cons)
  ultimately show ?case
    using i e Suc.prems(1) by (subst incr_loop.simps) (simp add: data_at_def)
qed

lemma begin_loop_first:
  assumes "length (ah_data t) = SLOT_COUNT" "i \<le> j" "j < SLOT_COUNT"
    "\<forall>k. i \<le> k \<and> k < j \<longrightarrow> ah_data t ! k = None" "ah_data t ! j = Some buf"
  shows "begin_loop t i = Inr j"
  using assms
proof (induction "j - i" arbitrary: i)
  case 0
  then have "i = j" by simp
  with 0 show ?case
    by (subst begin_loop.simps) (simp add: data_at_def)
next
  case (Suc n)
  then have i: "i < j" and e: "ah_data t ! i = None"
    by auto
  have "begin_loop t (i + 1) = Inr j"
    using Suc.hyps(2) Suc.prems by (intro Suc.hyps(1)) auto
  then show ?case
    using i e Suc.prems(1,3) by (subst begin_loop.simps) (simp add: data_at_def)
qed

subsection \<open>The forward traversal\<close>

lemma c_string_c: "0 \<notin> set r \<Longrightarrow> c_string (map Some (r @ 0 # rest)) = Inr r"
  by (induction r) auto

lemma first_nonempty:
  "concat xs \<noteq> [] \<Longrightarrow> \<exists>n<length xs. xs ! n \<noteq> [] \<and> (\<forall>k<n. xs ! k = [])"
proof (induction xs)
  case Nil
  then show ?case by simp
next
  case (Cons x xs)
  show ?case
  proof (cases "x = []")
    case False
    then show ?thesis by (intro exI [of _ 0]) simp
  next
    case True
    with Cons obtain n where n: "n < length xs" "xs ! n \<noteq> []" "\<forall>k<n. xs ! k = []"
      by auto
    show ?thesis
    proof (intro exI [of _ "Suc n"] conjI allI impI)
      fix k assume "k < Suc n"
      with n(3) True show "(x # xs) ! k = []"
        by (cases k) auto
    qed (use n in auto)
  qed
qed

lemma concat_drop_empty:
  "n \<le> length xs \<Longrightarrow> \<forall>k<n. xs ! k = [] \<Longrightarrow> concat xs = concat (drop n xs)"
proof (induction xs arbitrary: n)
  case Nil
  then show ?case by simp
next
  case (Cons x xs)
  show ?case
  proof (cases n)
    case 0
    then show ?thesis by simp
  next
    case (Suc m)
    with Cons.prems have "x = []" "m \<le> length xs" "\<forall>k<m. xs ! k = []"
      by (auto simp: nth_Cons split: nat.splits) 
    with Cons.IH [of m] Suc show ?thesis
      by simp
  qed
qed

lemma begin_loop_scan:
  assumes T: "table_repr t rss" and "i \<le> j" "j < SLOT_COUNT"
    "\<forall>k. i \<le> k \<and> k < j \<longrightarrow> rss ! k = []" "rss ! j \<noteq> []"
  shows "begin_loop t i = Inr j"
proof -
  from T have len: "length (ah_data t) = SLOT_COUNT" and d: "ah_data t = map slot_image rss"
    and lr: "length rss = SLOT_COUNT"
    by (simp_all add: table_repr_def)
  have "\<forall>k. i \<le> k \<and> k < j \<longrightarrow> ah_data t ! k = None"
    using assms(3,4) lr by (auto simp: d slot_image_def)
  moreover have "ah_data t ! j = Some (map Some (enc_records (rss ! j) @ [0, 0]))"
    using assms(3,5) lr by (simp add: d slot_image_def)
  ultimately show ?thesis
    using assms(2,3) by (intro begin_loop_first [OF len]) auto
qed

lemma incr_loop_scan:
  assumes T: "table_repr t rss" and "i \<le> j" "j \<le> SLOT_COUNT"
    "\<forall>k. i \<le> k \<and> k < j \<longrightarrow> rss ! k = []" "j < SLOT_COUNT \<longrightarrow> rss ! j \<noteq> []"
  shows "incr_loop t i reads = Inr (j, reads @ [i ..< j + 1])"
  using assms(2-)
proof (induction "j - i" arbitrary: i reads)
  case 0
  then have ij: "i = j" by simp
  show ?case
  proof (cases "j < SLOT_COUNT")
    case True
    with 0 have "rss ! j \<noteq> []" by simp
    with table_repr_data_at [OF T True]
    have "\<exists>b. data_at t j = Inr (Some b)"
      by (simp add: slot_image_def)
    with True show ?thesis
      unfolding ij by (subst incr_loop.simps) auto
  next
    case False
    then show ?thesis
      unfolding ij by (subst incr_loop.simps) simp
  qed
next
  case (Suc n)
  then have i: "i < j" "i < SLOT_COUNT" and e: "rss ! i = []"
    by auto
  have da: "data_at t i = Inr None"
    using table_repr_data_at [OF T i(2)] e by (simp add: slot_image_def)
  have "incr_loop t (i + 1) (reads @ [i]) = Inr (j, (reads @ [i]) @ [i + 1 ..< j + 1])"
    using Suc.hyps(2) Suc.prems by (intro Suc.hyps(1)) auto
  moreover have "[i ..< j + 1] = i # [i + 1 ..< j + 1]"
    using i by (simp add: upt_conv_Cons)
  ultimately show ?case
    using i da by (subst incr_loop.simps) simp
qed

lemma table_repr_buffer_of:
  assumes "table_repr t rss" "j < SLOT_COUNT" "rss ! j \<noteq> []"
  shows "buffer_of t j = Inr (map Some (enc_records (rss ! j) @ [0, 0]))"
  using assms by (simp add: table_repr_def buffer_of_def slot_image_def)

lemma cursor_deref:
  assumes T: "table_repr t rss" and j: "j < SLOT_COUNT" and r: "rss ! j = pre @ r # post"
  shows "string_at t (iterator_deref \<lparr>it_slot = j, it_p = Some (j, length (enc_records pre))\<rparr>) = Inr r"
proof -
  define w :: length_type where "w = of_nat (length r + 1)"
  define buf where "buf = map Some (enc_records (rss ! j) @ [0, 0])"
  have ne: "rss ! j \<noteq> []"
    using r by simp
  have bo: "buffer_of t j = Inr buf"
    unfolding buf_def by (rule table_repr_buffer_of [OF T j ne])
  from table_repr_slot [OF T j] r have z: "0 \<notin> set r"
    by (simp add: slot_ok_def valid_str_def)
  have b: "buf = map Some ((enc_records pre @ enc_length w) @ r @ 0 # (enc_records post @ [0, 0]))"
    by (simp add: buf_def r enc_records_append enc_records_Cons enc_record_def w_def)
  have l: "length (enc_records pre @ enc_length w) = length (enc_records pre) + 2"
    by (simp add: enc_length_def)
  have "drop (length (enc_records pre @ enc_length w)) buf =
      map Some (r @ 0 # (enc_records post @ [0, 0]))"
    unfolding b drop_map by simp
  then have "c_string (drop (length (enc_records pre @ enc_length w)) buf) = Inr r"
    by (simp only: c_string_c [OF z])
  then have "c_string (drop (length (enc_records pre) + 2) buf) = Inr r"
    unfolding l .
  then show ?thesis
    by (simp add: iterator_deref_def string_at_def bo)
qed

lemma cursor_incr:
  assumes T: "table_repr t rss" and j: "j < SLOT_COUNT" and r: "rss ! j = pre @ r # post"
  shows "iterator_incr t \<lparr>it_slot = j, it_p = Some (j, length (enc_records pre))\<rparr> =
    (if post = []
     then (case incr_loop t (j + 1) [] of
             Inl e \<Rightarrow> Inl e
           | Inr (slot, reads) \<Rightarrow>
               if slot = SLOT_COUNT then Inr (\<lparr>it_slot = slot, it_p = None\<rparr>, reads)
               else Inr (\<lparr>it_slot = slot, it_p = Some (slot, 0)\<rparr>, reads @ [slot]))
     else Inr (\<lparr>it_slot = j, it_p = Some (j, length (enc_records (pre @ [r])))\<rparr>, []))"
proof -
  define w :: length_type where "w = of_nat (length r + 1)"
  define w' :: length_type where "w' = (case post of [] \<Rightarrow> 0 | p # ps \<Rightarrow> of_nat (length p + 1))"
  define rest where "rest = (case post of [] \<Rightarrow> [] | p # ps \<Rightarrow> p @ 0 # enc_records ps @ [0, 0])"
  define buf where "buf = map Some (enc_records (rss ! j) @ [0, 0])"
  define off where "off = length (enc_records pre)"
  define off' where "off' = length (enc_records (pre @ [r]))"
  have ne: "rss ! j \<noteq> []"
    using r by simp
  have bo: "buffer_of t j = Inr buf"
    unfolding buf_def by (rule table_repr_buffer_of [OF T j ne])
  from table_repr_slot [OF T j] r have v: "length r < 32767" and vp: "\<forall>p\<in>set post. length p < 32767"
    by (simp_all add: slot_ok_def valid_str_def)
  have b1: "buf = map Some (enc_records pre @ enc_length w @ (r @ 0 # enc_records post @ [0, 0]))"
    by (simp add: buf_def r enc_records_append enc_records_Cons enc_record_def w_def)
  have b2: "buf = map Some (enc_records (pre @ [r]) @ enc_length w' @ rest)"
    by (cases post)
      (simp_all add: buf_def r enc_records_append enc_records_Cons enc_records_Nil enc_record_def
        w'_def rest_def enc_length_def)
  have r1: "read_length buf off = Inr w"
    unfolding b1 off_def by (rule read_length_enc)
  have r2: "read_length buf off' = Inr w'"
    unfolding b2 off'_def by (rule read_length_enc)
  have sw: "sint w = int (length r + 1)"
    unfolding w_def using v by (intro sint_of_nat16) simp
  have pa: "ptr_add off (sint w + 2) = Inr off'"
    by (simp add: ptr_add_def sw off_def off'_def enc_records_append enc_records_Cons
        enc_records_Nil length_enc_record)
  have w0: "w' = 0 \<longleftrightarrow> post = []"
  proof (cases post)
    case Nil
    then show ?thesis by (simp add: w'_def)
  next
    case (Cons p ps)
    with vp have "length p < 65535" by simp
    from of_nat16_nz [OF this] Cons show ?thesis
      by (simp add: w'_def)
  qed
  show ?thesis
    unfolding iterator_incr_def iterator.simps option.case prod.case bo sum.case
      off_def [symmetric] r1 pa r2 w0 off'_def [symmetric]
    by (simp add: off'_def)
qed

lemma traverse_loop_from:
  assumes T: "table_repr t rss"
  shows "j < SLOT_COUNT \<Longrightarrow> rss ! j = pre @ r # post \<Longrightarrow>
    traverse_loop t \<lparr>it_slot = j, it_p = Some (j, length (enc_records pre))\<rparr> out =
      Some (Inr (out @ r # post @ concat (drop (Suc j) rss)))"
proof (induction "length post + length (concat (drop (Suc j) rss))" arbitrary: j pre r post out)
  case 0
  then have post: "post = []" and later: "concat (drop (Suc j) rss) = []"
    by simp_all
  from T have lr: "length rss = SLOT_COUNT"
    by (simp add: table_repr_def)
  have ne: "\<lparr>it_slot = j, it_p = Some (j, length (enc_records pre))\<rparr> \<noteq> end_ah"
    by (simp add: end_ah_def)
  have empt: "\<forall>k. j + 1 \<le> k \<and> k < SLOT_COUNT \<longrightarrow> rss ! k = []"
  proof (intro allI impI)
    fix k assume k: "j + 1 \<le> k \<and> k < SLOT_COUNT"
    then have "rss ! k \<in> set (drop (Suc j) rss)"
      using lr by (auto simp: in_set_conv_nth intro!: exI [of _ "k - Suc j"])
    with later show "rss ! k = []"
      by auto
  qed
  have lo: "incr_loop t (j + 1) [] = Inr (SLOT_COUNT, [] @ [j + 1 ..< SLOT_COUNT + 1])"
    using "0.prems"(1) empt by (intro incr_loop_scan [OF T]) auto
  have inc: "iterator_incr t \<lparr>it_slot = j, it_p = Some (j, length (enc_records pre))\<rparr> =
      Inr (end_ah, [j + 1 ..< SLOT_COUNT + 1])"
    unfolding cursor_incr [OF T "0.prems"] lo using post by (simp add: end_ah_def)
  have fin: "traverse_loop t end_ah (out @ [r]) = Some (Inr (out @ [r]))"
    by (subst traverse_loop.simps) simp
  show ?case
    by (subst traverse_loop.simps)
      (simp only: ne if_False cursor_deref [OF T "0.prems"] sum.case inc prod.case fin post later,
        simp)
next
  case (Suc n)
  from T have lr: "length rss = SLOT_COUNT"
    by (simp add: table_repr_def)
  have ne: "\<lparr>it_slot = j, it_p = Some (j, length (enc_records pre))\<rparr> \<noteq> end_ah"
    by (simp add: end_ah_def)
  show ?case
  proof (cases post)
    case (Cons p ps)
    have r': "rss ! j = (pre @ [r]) @ p # ps"
      using Suc.prems(2) Cons by simp
    have n: "n = length ps + length (concat (drop (Suc j) rss))"
      using Suc.hyps(2) Cons by simp
    have inc: "iterator_incr t \<lparr>it_slot = j, it_p = Some (j, length (enc_records pre))\<rparr> =
        Inr (\<lparr>it_slot = j, it_p = Some (j, length (enc_records (pre @ [r])))\<rparr>, [])"
      unfolding cursor_incr [OF T Suc.prems] using Cons by simp
    have IH: "traverse_loop t \<lparr>it_slot = j, it_p = Some (j, length (enc_records (pre @ [r])))\<rparr>
        (out @ [r]) = Some (Inr ((out @ [r]) @ p # ps @ concat (drop (Suc j) rss)))"
      by (rule Suc.hyps(1) [OF n Suc.prems(1) r'])
    show ?thesis
      by (subst traverse_loop.simps)
        (simp only: ne if_False cursor_deref [OF T Suc.prems] sum.case inc prod.case IH Cons,
          simp)
  next
    case Nil
    with Suc.hyps(2) have sz: "length (concat (drop (Suc j) rss)) = Suc n"
      by simp
    have later: "concat (drop (Suc j) rss) \<noteq> []"
    proof
      assume "concat (drop (Suc j) rss) = []"
      then have "length (concat (drop (Suc j) rss)) = 0"
        by (simp only: list.size)
      with sz show False
        by simp
    qed
    from first_nonempty [OF later] obtain m where
      m: "m < length (drop (Suc j) rss)" "drop (Suc j) rss ! m \<noteq> []"
        "\<forall>k<m. drop (Suc j) rss ! k = []"
      by blast
    define j' where "j' = Suc j + m"
    have j': "j' < SLOT_COUNT" "j + 1 \<le> j'"
      using m(1) lr by (simp_all add: j'_def)
    have nej': "rss ! j' \<noteq> []"
      using m(1,2) by (simp add: j'_def)
    have empt: "\<forall>k. j + 1 \<le> k \<and> k < j' \<longrightarrow> rss ! k = []"
    proof (intro allI impI)
      fix k assume k: "j + 1 \<le> k \<and> k < j'"
      then have "k - Suc j < m"
        unfolding j'_def by linarith
      with m(3) have "drop (Suc j) rss ! (k - Suc j) = []"
        by blast
      with k j' lr show "rss ! k = []"
        by simp
    qed
    from nej' obtain r' post' where r': "rss ! j' = [] @ r' # post'"
      by (cases "rss ! j'") auto
    have dr: "concat (drop (Suc j) rss) = (r' # post') @ concat (drop (Suc j') rss)"
    proof -
      have "concat (drop (Suc j) rss) = concat (drop m (drop (Suc j) rss))"
        using m(1,3) by (intro concat_drop_empty) simp_all
      also have "drop m (drop (Suc j) rss) = drop j' rss"
        by (simp add: j'_def add.commute)
      also have "drop j' rss = rss ! j' # drop (Suc j') rss"
        using j'(1) lr by (simp add: Cons_nth_drop_Suc)
      finally show ?thesis
        using r' by simp
    qed
    have n: "n = length post' + length (concat (drop (Suc j') rss))"
      using Suc.hyps(2) Nil dr by simp
    have lo: "incr_loop t (j + 1) [] = Inr (j', [] @ [j + 1 ..< j' + 1])"
      using j' empt nej' by (intro incr_loop_scan [OF T]) auto
    have inc: "iterator_incr t \<lparr>it_slot = j, it_p = Some (j, length (enc_records pre))\<rparr> =
        Inr (\<lparr>it_slot = j', it_p = Some (j', 0)\<rparr>, [j + 1 ..< j' + 1] @ [j'])"
      unfolding cursor_incr [OF T Suc.prems] lo using Nil j'(1) by simp
    have IH: "traverse_loop t \<lparr>it_slot = j', it_p = Some (j', length (enc_records []))\<rparr>
        (out @ [r]) = Some (Inr ((out @ [r]) @ r' # post' @ concat (drop (Suc j') rss)))"
      by (rule Suc.hyps(1) [OF n j'(1) r'])
    show ?thesis
      by (subst traverse_loop.simps)
        (simp only: ne if_False cursor_deref [OF T Suc.prems] sum.case inc prod.case
          IH [unfolded enc_records_Nil list.size] Nil dr,
          simp)
  qed
qed

lemma traverse_repr:
  assumes T: "table_repr t rss" and ne: "concat rss \<noteq> []"
  shows "traverse t = Some (Inr (concat rss))"
proof -
  from T have lr: "length rss = SLOT_COUNT"
    by (simp add: table_repr_def)
  from first_nonempty [OF ne] obtain j where
    j: "j < length rss" "rss ! j \<noteq> []" "\<forall>k<j. rss ! k = []"
    by blast
  then obtain r post where r: "rss ! j = [] @ r # post"
    by (cases "rss ! j") auto
  have js: "j < SLOT_COUNT"
    using j(1) lr by simp
  have "begin_loop t 0 = Inr j"
    using j js by (intro begin_loop_scan [OF T]) auto
  then have b: "begin_ah t = Inr \<lparr>it_slot = j, it_p = Some (j, length (enc_records []))\<rparr>"
    by (simp add: begin_ah_def enc_records_Nil)
  have "concat rss = concat (drop j rss)"
    using j by (intro concat_drop_empty) simp_all
  also have "drop j rss = rss ! j # drop (Suc j) rss"
    using j(1) by (simp add: Cons_nth_drop_Suc)
  finally have c: "concat rss = r # post @ concat (drop (Suc j) rss)"
    using r by simp
  show ?thesis
    unfolding traverse_def b sum.case traverse_loop_from [OF T js r] c by simp
qed

lemma incr_past_last:
  assumes T: "table_repr t rss" and j: "j < SLOT_COUNT" and r: "rss ! j = pre @ [r]"
    and later: "concat (drop (Suc j) rss) = []"
  shows "iterator_incr t \<lparr>it_slot = j, it_p = Some (j, length (enc_records pre))\<rparr> =
    Inr (end_ah, [j + 1 ..< SLOT_COUNT + 1])"
proof -
  from T have lr: "length rss = SLOT_COUNT"
    by (simp add: table_repr_def)
  have empt: "\<forall>k. j + 1 \<le> k \<and> k < SLOT_COUNT \<longrightarrow> rss ! k = []"
  proof (intro allI impI)
    fix k assume k: "j + 1 \<le> k \<and> k < SLOT_COUNT"
    then have "rss ! k \<in> set (drop (Suc j) rss)"
      using lr by (auto simp: in_set_conv_nth intro!: exI [of _ "k - Suc j"])
    with later show "rss ! k = []"
      by auto
  qed
  have lo: "incr_loop t (j + 1) [] = Inr (SLOT_COUNT, [] @ [j + 1 ..< SLOT_COUNT + 1])"
    using j empt by (intro incr_loop_scan [OF T]) auto
  show ?thesis
    unfolding cursor_incr [OF T j r] lo by (simp add: end_ah_def)
qed

lemma traverse_nonempty:
  assumes "\<forall>x\<in>set ss. valid_str x" and "inserts array_hash_new ss = Some (Inr t)"
    and "ss \<noteq> []"
  shows "\<exists>xs. traverse t = Some (Inr xs) \<and> distinct xs \<and> set xs = set ss"
proof -
  from reachable_packed [OF assms(1,2)] obtain rss where
    T: "table_repr t rss" and S: "set (concat rss) = set ss"
    and c: "length (concat rss) = card (set ss)"
    by (auto simp: packed_def)
  from assms(3) S have ne: "concat rss \<noteq> []"
    by (metis set_empty)
  have "card (set (concat rss)) = length (concat rss)"
    unfolding S c ..
  then have "distinct (concat rss)"
    by (rule card_distinct)
  with traverse_repr [OF T ne] S show ?thesis
    by blast
qed

section \<open>Explicit lengths\<close>

lemma length_arg_explicit:
  assumes "0 \<notin> set s" "s \<noteq> []" "length s < 32767"
  shows "length_arg (c_str s) (of_nat (length s)) = length_arg (c_str s) 0"
proof -
  from assms(2) obtain n where n: "length s = Suc n"
    by (cases s) auto
  with assms(3) have "(of_nat (length s) :: length_type) \<noteq> 0"
    using of_nat16_nz [of n] by simp
  then have "length_arg (c_str s) (of_nat (length s)) = Inr (of_nat (length s) + 1)"
    by (simp add: length_arg_def)
  with length_arg_c [OF assms(1)] show ?thesis
    by simp
qed

text \<open>
  C10, for the calls whose explicit length is the right one. When \<open>L\<close> is the number of
  bytes of \<open>str\<close> before its terminator (and not zero), \<open>insert(str, L)\<close> is the call
  without a length: on a table built by inserts that does not hold \<open>str\<close> it returns
  (fewer than \<open>2 ^ 31\<close> bytes having been inserted), the slot's new buffer is its old
  records, then the prefix \<open>length + 1\<close>, the bytes of \<open>str\<close>, the terminator and the sentinel; the prefix read
  back at the end of the old records is \<open>length + 1\<close>, and the record walks stay on the
  record boundaries: \<open>find\<close> answers true for exactly the strings stored, the walk counts
  one record more, and the cursor from \<open>begin()\<close> to \<open>end()\<close> yields each stored string
  once (its last advance reads the slot pointer one past the array, see C8).
\<close>

theorem explicit_length_insert:
  assumes "\<forall>x\<in>set ss. valid_str x" and "inserts array_hash_new ss = Some (Inr t)"
    and "valid_str s" and "s \<noteq> []" and "s \<notin> set ss"
  shows "insert_ah t (c_str s) (of_nat (length s)) = insert_ah t (c_str s) 0 \<and>
    (str_bytes ss < 2 ^ 31 \<longrightarrow>
       (\<exists>t'. insert_ah t (c_str s) (of_nat (length s)) = Some (Inr t'))) \<and>
    (\<forall>t'. insert_ah t (c_str s) (of_nat (length s)) = Some (Inr t') \<longrightarrow>
       (\<exists>rs. ah_data t ! slot_index s = slot_image rs \<and>
          ah_data t' ! slot_index s =
            Some (map Some (enc_records rs @ enc_length (of_nat (length s + 1)) @ s @ [0] @ [0, 0])) \<and>
          read_length
            (map Some (enc_records rs @ enc_length (of_nat (length s + 1)) @ s @ [0] @ [0, 0]))
            (length (enc_records rs)) = Inr (of_nat (length s + 1))) \<and>
       (\<forall>x. 0 \<notin> set x \<longrightarrow> find_ah t' (c_str x) 0 = Some (Inr (x \<in> set ss \<or> x = s))) \<and>
       total_records t' = card (set ss) + 1 \<and>
       (\<exists>xs. traverse t' = Some (Inr xs) \<and> distinct xs \<and> set xs = insert s (set ss)))"
proof -
  from assms(3) have z: "0 \<notin> set s" and l: "length s < 32767"
    by (simp_all add: valid_str_def)
  have eq: "insert_ah t (c_str s) (of_nat (length s)) = insert_ah t (c_str s) 0"
    by (simp add: insert_ah_def length_arg_explicit [OF z assms(4) l])
  from reachable_packed [OF assms(1,2)] obtain rss where
    P: "packed t rss (set ss)" and b: "str_bytes (concat rss) \<le> str_bytes ss"
    by blast
  have 1: "str_bytes ss < 2 ^ 31 \<longrightarrow>
      (\<exists>t'. insert_ah t (c_str s) (of_nat (length s)) = Some (Inr t'))"
    unfolding eq using insert_succeeds [OF P assms(3)] b by auto
  from P have T: "table_repr t rss" and S: "set (concat rss) = set ss"
    and c: "length (concat rss) = card (set ss)"
    by (simp_all add: packed_def)
  from T have len: "length rss = SLOT_COUNT" and d: "ah_data t = map slot_image rss"
    by (simp_all add: table_repr_def)
  define i where "i = slot_index s"
  define rs where "rs = rss ! i"
  have i: "i < length rss"
    unfolding i_def using slot_index_less [of s] len by simp
  have fresh: "s \<notin> set (rss ! slot_index s)"
    using valid_mem_slot [OF T assms(3)] assms(5) unfolding S by blast
  have 2: "(\<exists>rs. ah_data t ! i = slot_image rs \<and>
          ah_data t' ! i =
            Some (map Some (enc_records rs @ enc_length (of_nat (length s + 1)) @ s @ [0] @ [0, 0])) \<and>
          read_length
            (map Some (enc_records rs @ enc_length (of_nat (length s + 1)) @ s @ [0] @ [0, 0]))
            (length (enc_records rs)) = Inr (of_nat (length s + 1))) \<and>
       (\<forall>x. 0 \<notin> set x \<longrightarrow> find_ah t' (c_str x) 0 = Some (Inr (x \<in> set ss \<or> x = s))) \<and>
       total_records t' = card (set ss) + 1 \<and>
       (\<exists>xs. traverse t' = Some (Inr xs) \<and> distinct xs \<and> set xs = insert s (set ss))"
    if ins: "insert_ah t (c_str s) (of_nat (length s)) = Some (Inr t')" for t'
  proof -
    from insert_fresh [OF T assms(3) fresh] ins [unfolded eq]
    have t': "t' = t\<lparr>ah_data := (ah_data t)[i := slot_image (rs @ [s])], ah_size := ah_size t + 1\<rparr>"
      and T': "table_repr t' (rss[i := rs @ [s]])"
      unfolding i_def rs_def by (auto split: if_splits)
    have d0: "ah_data t ! i = slot_image rs"
      using i by (simp add: d rs_def)
    have d1: "ah_data t' ! i =
        Some (map Some (enc_records rs @ enc_length (of_nat (length s + 1)) @ s @ [0] @ [0, 0]))"
      using i by (simp add: t' d slot_image_def enc_records_append enc_records_Cons
          enc_records_Nil enc_record_def)
    have r: "read_length
        (map Some (enc_records rs @ enc_length (of_nat (length s + 1)) @ s @ [0] @ [0, 0]))
        (length (enc_records rs)) = Inr (of_nat (length s + 1))"
      by (rule read_length_enc)
    have f: "find_ah t' (c_str x) 0 = Some (Inr (x \<in> set ss \<or> x = s))" if "0 \<notin> set x" for x
    proof -
      have "find_ah t' (c_str x) 0 = Some (Inr (x \<in> set (concat (rss[i := rs @ [s]]))))"
        by (rule find_repr [OF T' that])
      then show ?thesis
        unfolding rs_def set_concat_update [OF i] S by auto
    qed
    have "total_records t' = length (concat (rss[i := rs @ [s]]))"
      by (rule total_records_repr [OF T'])
    then have n: "total_records t' = card (set ss) + 1"
      unfolding rs_def length_concat_update [OF i] c by simp
    have sc: "set (concat (rss[i := rs @ [s]])) = insert s (set ss)"
      unfolding rs_def set_concat_update [OF i] S ..
    have lc: "length (concat (rss[i := rs @ [s]])) = card (insert s (set ss))"
      unfolding rs_def length_concat_update [OF i] c using assms(5) by simp
    have ne: "concat (rss[i := rs @ [s]]) \<noteq> []"
      using sc by (metis insert_not_empty set_empty)
    have "card (set (concat (rss[i := rs @ [s]]))) = length (concat (rss[i := rs @ [s]]))"
      unfolding sc lc ..
    then have "distinct (concat (rss[i := rs @ [s]]))"
      by (rule card_distinct)
    with traverse_repr [OF T' ne] sc
    have tr: "\<exists>xs. traverse t' = Some (Inr xs) \<and> distinct xs \<and> set xs = insert s (set ss)"
      by blast
    from d0 d1 r f n tr show ?thesis
      by blast
  qed
  from eq 1 2 show ?thesis
    unfolding i_def by blast
qed

theorem explicit_length_insert_witness:
  "list_all valid_str example_strings \<and>
   inserts array_hash_new example_strings = Some (Inr example_table) \<and>
   valid_str [0x64, 0x75, 0x63] \<and> [0x64, 0x75, 0x63] \<noteq> ([] :: byte list) \<and>
   [0x64, 0x75, 0x63] \<notin> set example_strings \<and>
   insert_ah example_table (c_str [0x64, 0x75, 0x63]) 3 = Some (Inr example_table_duc) \<and>
   find_ah example_table_duc (c_str [0x64, 0x75, 0x63]) 0 = Some (Inr True) \<and>
   find_ah example_table_duc (c_str [0x64, 0x75]) 0 = Some (Inr False) \<and>
   total_records example_table_duc = 3 \<and>
   (\<exists>xs. traverse example_table_duc = Some (Inr xs) \<and> distinct xs \<and>
      set xs = {[0x64, 0x75, 0x63], [0x62, 0x61], [0x73, 0x77]})"
proof -
  have v: "valid_str [0x64, 0x75, 0x63]"
    by (simp add: valid_str_def)
  have n: "[0x64, 0x75, 0x63] \<noteq> ([] :: byte list)"
    by simp
  have m: "[0x64, 0x75, 0x63] \<notin> set example_strings"
    by (simp add: example_strings_def)
  have i: "insert_ah example_table (c_str [0x64, 0x75, 0x63]) (of_nat (length [0x64, 0x75, 0x63 :: byte])) =
      Some (Inr example_table_duc)"
    by code_simp
  have e: "set example_strings = {[0x62, 0x61], [0x73, 0x77]}"
    by (auto simp: example_strings_def)
  then have c: "card (set example_strings) = 2"
    by simp
  from explicit_length_insert [OF example_valid example_inserts v n m] i
  have "(\<forall>x. 0 \<notin> set x \<longrightarrow> find_ah example_table_duc (c_str x) 0 =
          Some (Inr (x \<in> set example_strings \<or> x = [0x64, 0x75, 0x63])))"
    and "total_records example_table_duc = card (set example_strings) + 1"
    and "\<exists>xs. traverse example_table_duc = Some (Inr xs) \<and> distinct xs \<and>
      set xs = insert [0x64, 0x75, 0x63] (set example_strings)"
    by blast+
  then have "find_ah example_table_duc (c_str [0x64, 0x75, 0x63]) 0 = Some (Inr True)"
    and "find_ah example_table_duc (c_str [0x64, 0x75]) 0 = Some (Inr False)"
    and "total_records example_table_duc = 3"
    and "\<exists>xs. traverse example_table_duc = Some (Inr xs) \<and> distinct xs \<and>
      set xs = {[0x64, 0x75, 0x63], [0x62, 0x61], [0x73, 0x77]}"
    unfolding c e by (simp_all add: example_strings_def)
  then show ?thesis
    using v n m i example_valid example_inserts by (simp add: list_all_iff)
qed

text \<open>
  The claim as stated fails at \<open>insert("ab", 1)\<close> on the empty table: the record stored
  has the prefix 2, not 3, its payload is the two letters without a terminator of its
  own, and a lookup of \<open>"ab"\<close> without a length does not find it.
\<close>

theorem explicit_length_counterexample:
  "insert_ah array_hash_new [0x61, 0x62, 0] 1 =
     Some (Inr \<lparr>ah_data = (replicate SLOT_COUNT None)
                  [849 := Some [Some 2, Some 0, Some 0x61, Some 0x62, Some 0, Some 0]],
                ah_size = 1\<rparr>) \<and>
   read_length [Some 2, Some 0, Some 0x61, Some 0x62, Some 0, Some 0] 0 = Inr 2 \<and>
   strlen [0x61, 0x62, 0] = Inr 2 \<and>
   find_ah \<lparr>ah_data = (replicate SLOT_COUNT None)
              [849 := Some [Some 2, Some 0, Some 0x61, Some 0x62, Some 0, Some 0]],
            ah_size = 1\<rparr> [0x61, 0x62, 0] 0 = Some (Inr False)"
  by code_simp

section \<open>Where the cursor leaves the slot array\<close>

text \<open>
  C2 fails on the table with no insertions: \<open>begin()\<close> has no bound on its scan, it
  reads past the last slot pointer, and the traversal yields no list of strings. On a
  table that holds a string the traversal does yield every stored string once
  (\<open>traverse_nonempty\<close>).
\<close>

theorem traverse_empty_table:
  "begin_ah array_hash_new = Inl OutOfBounds \<and> traverse array_hash_new = Some (Inl OutOfBounds)"
proof -
  have "begin_loop array_hash_new 0 = Inl OutOfBounds"
    by (rule begin_loop_empty) (simp_all add: array_hash_new_def)
  then show ?thesis
    by (simp add: begin_ah_def traverse_def)
qed

text \<open>
  C8 fails on the table that holds the one string \<open>"a"\<close> (in slot 849): advancing the
  cursor past that record tests \<^verbatim>\<open>data[slot]\<close> before \<^verbatim>\<open>slot < SLOT_COUNT\<close>, so it reads
  the indices 850 up to and including \<open>SLOT_COUNT\<close>; it does end in the end state. The
  same holds for the last record of every table built by inserts (\<open>incr_past_last\<close>).
\<close>

theorem incr_reads_past_array:
  "insert_ah array_hash_new (c_str [0x61]) 0 = Some (Inr example_table_a) \<and>
   begin_ah example_table_a = Inr \<lparr>it_slot = 849, it_p = Some (849, 0)\<rparr> \<and>
   iterator_incr example_table_a \<lparr>it_slot = 849, it_p = Some (849, 0)\<rparr> =
     Inr (end_ah, [850 ..< SLOT_COUNT + 1]) \<and>
   SLOT_COUNT \<in> set [850 ..< SLOT_COUNT + 1]"
proof -
  have len: "length (ah_data example_table_a) = SLOT_COUNT"
    by (simp add: example_table_a_def)
  have at: "ah_data example_table_a ! 849 = Some (map Some [2, 0, 0x61, 0, 0, 0])"
    by (simp add: example_table_a_def SLOT_COUNT_def)
  have other: "\<forall>k. k \<noteq> 849 \<and> k < SLOT_COUNT \<longrightarrow> ah_data example_table_a ! k = None"
    by (simp add: example_table_a_def)
  have 1: "insert_ah array_hash_new (c_str [0x61]) 0 = Some (Inr example_table_a)"
    by code_simp
  have "begin_loop example_table_a 0 = Inr 849"
    using other by (intro begin_loop_first [OF len _ _ _ at]) (simp_all add: SLOT_COUNT_def)
  then have 2: "begin_ah example_table_a = Inr \<lparr>it_slot = 849, it_p = Some (849, 0)\<rparr>"
    by (simp add: begin_ah_def)
  have bo: "buffer_of example_table_a 849 = Inr (map Some [2, 0, 0x61, 0, 0, 0])"
    using len at by (simp add: buffer_of_def SLOT_COUNT_def)
  have r0: "read_length (map Some [2, 0, 0x61, 0, 0, 0]) 0 = Inr 2"
    by (simp add: read_length_def read_byte_def)
  have r4: "read_length (map Some [2, 0, 0x61, 0, 0, 0]) 4 = Inr 0"
    by (simp add: read_length_def read_byte_def)
  have pa: "ptr_add 0 (sint (2 :: length_type) + 2) = Inr 4"
    by (simp add: ptr_add_def)
  have lo: "incr_loop example_table_a (849 + 1) [] = Inr (SLOT_COUNT, [] @ [849 + 1 ..< SLOT_COUNT + 1])"
    using other by (intro incr_loop_empty [OF len]) (simp_all add: SLOT_COUNT_def)
  have 3: "iterator_incr example_table_a \<lparr>it_slot = 849, it_p = Some (849, 0)\<rparr> =
     Inr (end_ah, [850 ..< SLOT_COUNT + 1])"
    unfolding iterator_incr_def iterator.simps option.case prod.case bo sum.case r0 pa r4 lo
    by (simp add: end_ah_def)
  have 4: "SLOT_COUNT \<in> set [850 ..< SLOT_COUNT + 1]"
    by (simp add: SLOT_COUNT_def)
  from 1 2 3 4 show ?thesis
    by blast
qed

end
